theory Spec2Isabelle
  imports Main "HOL-Library.Word"
begin

unbundle bit_operations_syntax

section \<open>The line, word and byte counter \<open>lc\<close>\<close>

text \<open>
  A shallow embedding of \<^verbatim>\<open>lc.c\<close>. Counters are \<^verbatim>\<open>uintmax_t\<close>, modelled as 64-bit
  words, so every increment wraps as in C. The value of \<^verbatim>\<open>read()\<close> is an \<open>int\<close>.
  What the C library and the kernel contribute (the multibyte decoder, the wide
  character classifier, the allocator, the results of \<^verbatim>\<open>fstat\<close>, \<^verbatim>\<open>read\<close> and
  \<^verbatim>\<open>open\<close>) is a parameter of the model.
\<close>

subsection \<open>Data\<close>

type_synonym byte = "8 word"
type_synonym uintmax_t = "64 word"
type_synonym wchar_t = nat

definition MAXSIZE :: nat where
  "MAXSIZE = 65205"

record lc_info =
  num_bytes :: uintmax_t
  num_lines :: uintmax_t
  num_words :: uintmax_t
  lines_total :: uintmax_t
  words_total :: uintmax_t
  bytes_total :: uintmax_t

record lc_conf =
  opt_bytes :: bool
  opt_lines :: bool
  opt_words :: bool

subsection \<open>The character macros\<close>

text \<open>
  The macros are applied to \<^verbatim>\<open>*p\<close>, a plain \<^verbatim>\<open>char\<close> promoted to \<^verbatim>\<open>int\<close>;
  \<open>char_val\<close> is that promotion for a signed \<^verbatim>\<open>char\<close>.
  \<^verbatim>\<open>is_ascii(x) = !(x & ~0x7f)\<close>,
  \<^verbatim>\<open>is_print(x) = ((unsigned int)x - 0x20) < 0x5f\<close>,
  \<^verbatim>\<open>is_space(x) = (x == ' ' || ((x - '\t') < 5))\<close>.
\<close>

definition char_val :: "byte \<Rightarrow> int" where
  "char_val b = sint b"

definition is_ascii :: "int \<Rightarrow> bool" where
  "is_ascii x = (x AND NOT 127 = 0)"

definition is_print :: "int \<Rightarrow> bool" where
  "is_print x = ((word_of_int x :: 32 word) - 32 < 95)"

definition is_space :: "int \<Rightarrow> bool" where
  "is_space x = (x = 32 \<or> x - 9 < 5)"

subsection \<open>The environment: C library and byte source\<close>

text \<open>
  \<^verbatim>\<open>mbrtowc(&pwc, p, n, &mst)\<close> is given the conversion state and the \<open>n\<close> bytes at \<open>p\<close>.
  \<open>MbChar k wc\<close>: it returns \<open>k\<close> and stores \<open>wc\<close> (\<open>k = 0\<close> for the null character);
  \<open>MbInvalid\<close>: it returns \<^verbatim>\<open>(size_t)-1\<close>; \<open>MbIncomplete\<close>: it returns \<^verbatim>\<open>(size_t)-2\<close>;
  the last two store nothing. \<open>mbstate0\<close> is the zero-initialised \<^verbatim>\<open>mbstate_t\<close>.
\<close>

datatype mbresult = MbChar nat wchar_t | MbInvalid | MbIncomplete

record 's libc =
  mbrtowc :: "'s \<Rightarrow> byte list \<Rightarrow> mbresult \<times> 's"
  iswspace :: "wchar_t \<Rightarrow> bool"
  mbstate0 :: 's
  malloc_ok :: bool

text \<open>
  One call of \<^verbatim>\<open>read(fd, buf, MAXSIZE)\<close> either delivers bytes (\<open>Rd bs\<close>, the
  value is \<open>length bs\<close>; \<open>Rd []\<close> is end of stream) or fails (\<open>RdErr\<close>, the value is
  \<open>-1\<close> and the buffer is untouched). A descriptor holds the results of the reads still to
  come; once they are used up every read returns 0. \<open>closes\<close> counts the calls of
  \<^verbatim>\<open>close\<close> on the descriptor.
\<close>

datatype rd = Rd "byte list" | RdErr

fun ret :: "rd \<Rightarrow> int" where
  "ret (Rd bs) = int (length bs)"
| "ret RdErr = - 1"

fun data :: "rd \<Rightarrow> byte list" where
  "data (Rd bs) = bs"
| "data RdErr = []"

record stat =
  S_ISREG :: bool
  st_size :: "64 word"

record source =
  fstat :: "stat option"
  reads :: "rd list"
  closes :: nat

definition close :: "source \<Rightarrow> source" where
  "close fd = fd\<lparr>closes := closes fd + 1\<rparr>"

text \<open>
  How a scan can end without returning: \<^verbatim>\<open>err(EXIT_FAILURE, ...)\<close> after a failed
  \<^verbatim>\<open>fstat\<close>, \<^verbatim>\<open>malloc\<close> or \<^verbatim>\<open>open\<close>, the exit on a bare \<^verbatim>\<open>-\<close>, and an access
  outside the scratch buffer (undefined behaviour), recorded with the offending index.
\<close>

datatype failure =
  Exit_fstat
| Exit_malloc
| Exit_open string
| Exit_invalid_prefix
| Undefined_access int

text \<open>The bytes a scan is given: what the reads deliver up to the first read that returns 0.\<close>

fun stream_of :: "rd list \<Rightarrow> byte list" where
  "stream_of [] = []"
| "stream_of (r # rs) = (if ret r = 0 then [] else data r @ stream_of rs)"

subsection \<open>\<open>count_bytes\<close>\<close>

text \<open>The loop \<^verbatim>\<open>while ((bytes_read = read(fd, buf, MAXSIZE)) != 0) li->num_bytes += (uintmax_t)bytes_read;\<close>\<close>

fun bytes_reads :: "rd list \<Rightarrow> uintmax_t \<Rightarrow> uintmax_t \<times> rd list" where
  "bytes_reads [] nb = (nb, [])"
| "bytes_reads (r # rs) nb =
     (if ret r = 0 then (nb, rs) else bytes_reads rs (nb + word_of_int (ret r)))"

definition count_bytes :: "'s libc \<Rightarrow> lc_info \<Rightarrow> source \<Rightarrow> failure + lc_info \<times> source" where
  "count_bytes L li fd =
     (let li1 = li\<lparr>num_bytes := 0\<rparr> in
      case fstat fd of
        None \<Rightarrow> Inl Exit_fstat
      | Some st \<Rightarrow>
          if S_ISREG st \<and> 0 <s st_size st
          then Inr (li1\<lparr>num_bytes := st_size st\<rparr>, close fd)
          else if \<not> malloc_ok L then Inl Exit_malloc
          else (case bytes_reads (reads fd) (num_bytes li1) of
                  (nb, rs) \<Rightarrow> Inr (li1\<lparr>num_bytes := nb\<rparr>, close (fd\<lparr>reads := rs\<rparr>))))"

subsection \<open>\<open>count_words\<close> and \<open>count_all\<close>\<close>

text \<open>
  The locals of a scan that the loops update: the conversion state, \<open>have_space\<close>,
  \<open>sum_bytes\<close> (only \<open>count_all\<close> has it) and the counters behind \<open>li\<close>.
  The inner loop sees the bytes \<^verbatim>\<open>p[0 .. bytes_read)\<close>, the list \<open>bs\<close> below.
\<close>

record 's locals =
  mst :: 's
  have_space :: bool
  sum_bytes :: uintmax_t
  info :: lc_info

text \<open>What \<^verbatim>\<open>pwc\<close> holds after the call (it is preset to \<^verbatim>\<open>(unsigned char)*p\<close>) and the advance \<^verbatim>\<open>wlen\<close>.\<close>

fun pwc_after :: "mbresult \<Rightarrow> byte \<Rightarrow> wchar_t" where
  "pwc_after (MbChar k wc) b = wc"
| "pwc_after MbInvalid b = unat b"
| "pwc_after MbIncomplete b = unat b"

fun wlen_after :: "mbresult \<Rightarrow> nat" where
  "wlen_after (MbChar k wc) = (if k = 0 then 1 else k)"
| "wlen_after MbInvalid = 1"
| "wlen_after MbIncomplete = 1"

text \<open>The word bookkeeping shared by both branches: set \<open>have_space\<close>, or start a word.\<close>

definition note_class :: "bool \<Rightarrow> 's locals \<Rightarrow> 's locals" where
  "note_class sp s =
     (if sp then s\<lparr>have_space := True\<rparr>
      else if have_space s
      then s\<lparr>have_space := False, info := (info s)\<lparr>num_words := num_words (info s) + 1\<rparr>\<rparr>
      else s)"

definition bump_lines :: "'s locals \<Rightarrow> 's locals" where
  "bump_lines s = s\<lparr>info := (info s)\<lparr>num_lines := num_lines (info s) + 1\<rparr>\<rparr>"

text \<open>One iteration of the inner loop of \<open>count_words\<close>: the advance and the new locals.\<close>

definition words_step :: "'s libc \<Rightarrow> byte list \<Rightarrow> 's locals \<Rightarrow> nat \<times> 's locals" where
  "words_step L bs s =
     (let c = char_val (hd bs) in
      if is_ascii c \<and> is_print c
      then (1, note_class (is_space c) s)
      else (case mbrtowc L (mst s) bs of
              (r, m) \<Rightarrow>
                (wlen_after r,
                 note_class (iswspace L (pwc_after r (hd bs))) (s\<lparr>mst := m\<rparr>))))"

text \<open>
  One iteration of the inner loop of \<open>count_all\<close>. In the ASCII branch the test for
  \<^verbatim>\<open>'\n'\<close> is the last arm of the \<^verbatim>\<open>if / else if\<close> chain.
\<close>

definition all_step :: "'s libc \<Rightarrow> byte list \<Rightarrow> 's locals \<Rightarrow> nat \<times> 's locals" where
  "all_step L bs s =
     (let c = char_val (hd bs) in
      if is_ascii c \<and> is_print c
      then (1, if is_space c then s\<lparr>have_space := True\<rparr>
               else if have_space s
               then s\<lparr>have_space := False, info := (info s)\<lparr>num_words := num_words (info s) + 1\<rparr>\<rparr>
               else if c = 10 then bump_lines s
               else s)
      else (case mbrtowc L (mst s) bs of
              (r, m) \<Rightarrow>
                (let pwc = pwc_after r (hd bs);
                     s1 = s\<lparr>mst := m\<rparr>;
                     s2 = (if pwc = 10 then bump_lines s1 else s1)
                 in (wlen_after r, note_class (iswspace L pwc) s2))))"

lemma wlen_after_pos: "0 < wlen_after r"
  by (cases r) auto

lemma words_step_pos: "0 < fst (words_step L bs s)"
  by (simp add: words_step_def Let_def wlen_after_pos split: prod.splits)

lemma all_step_pos: "0 < fst (all_step L bs s)"
  by (simp add: all_step_def Let_def wlen_after_pos split: prod.splits)

text \<open>The inner loops \<^verbatim>\<open>while (bytes_read > 0)\<close>.\<close>

function words_buf :: "'s libc \<Rightarrow> byte list \<Rightarrow> 's locals \<Rightarrow> 's locals" where
  "words_buf L bs s =
     (if bs = [] then s
      else words_buf L (drop (fst (words_step L bs s)) bs) (snd (words_step L bs s)))"
  by pat_completeness auto
termination
  by (relation "measure (\<lambda>(L, bs, s). length bs)") (auto intro!: diff_less simp: words_step_pos)

function all_buf :: "'s libc \<Rightarrow> byte list \<Rightarrow> 's locals \<Rightarrow> 's locals" where
  "all_buf L bs s =
     (if bs = [] then s
      else all_buf L (drop (fst (all_step L bs s)) bs) (snd (all_step L bs s)))"
  by pat_completeness auto
termination
  by (relation "measure (\<lambda>(L, bs, s). length bs)") (auto intro!: diff_less simp: all_step_pos)

declare words_buf.simps [simp del] all_buf.simps [simp del]

text \<open>
  The outer loops \<^verbatim>\<open>while ((bytes_read = read(fd, buf, MAXSIZE)) != 0)\<close>. After a failed
  read \<open>bytes_read\<close> is \<open>-1\<close>: the loop body runs, the inner loop does not.
\<close>

fun words_reads :: "'s libc \<Rightarrow> rd list \<Rightarrow> 's locals \<Rightarrow> 's locals \<times> rd list" where
  "words_reads L [] s = (s, [])"
| "words_reads L (r # rs) s =
     (if ret r = 0 then (s, rs) else words_reads L rs (words_buf L (data r) s))"

fun all_reads :: "'s libc \<Rightarrow> rd list \<Rightarrow> 's locals \<Rightarrow> 's locals \<times> rd list" where
  "all_reads L [] s = (s, [])"
| "all_reads L (r # rs) s =
     (if ret r = 0 then (s, rs)
      else all_reads L rs
             (all_buf L (data r) (s\<lparr>sum_bytes := sum_bytes s + word_of_int (ret r)\<rparr>)))"

definition count_all :: "'s libc \<Rightarrow> lc_info \<Rightarrow> source \<Rightarrow> failure + lc_info \<times> source" where
  "count_all L li fd =
     (let li1 = li\<lparr>num_bytes := 0, num_lines := 0, num_words := 0\<rparr> in
      case fstat fd of
        None \<Rightarrow> Inl Exit_fstat
      | Some st \<Rightarrow>
          (let li2 = (if S_ISREG st \<and> 0 <s st_size st
                      then li1\<lparr>num_bytes := st_size st\<rparr> else li1)
           in if \<not> malloc_ok L then Inl Exit_malloc
              else (case all_reads L (reads fd)
                           \<lparr>mst = mbstate0 L, have_space = True, sum_bytes = 0, info = li2\<rparr> of
                      (s, rs) \<Rightarrow>
                        Inr (if num_bytes (info s) = 0
                             then (info s)\<lparr>num_bytes := sum_bytes s\<rparr> else info s,
                             fd\<lparr>reads := rs\<rparr>))))"

definition count_words :: "'s libc \<Rightarrow> lc_info \<Rightarrow> source \<Rightarrow> failure + lc_info \<times> source" where
  "count_words L li fd =
     (if \<not> malloc_ok L then Inl Exit_malloc
      else (case words_reads L (reads fd)
                   \<lparr>mst = mbstate0 L, have_space = True, sum_bytes = 0,
                    info = li\<lparr>num_words := 0\<rparr>\<rparr> of
              (s, rs) \<Rightarrow> Inr (info s, close (fd\<lparr>reads := rs\<rparr>))))"

subsection \<open>\<open>count_lines_and_bytes\<close>\<close>

text \<open>
  Here the scratch buffer matters: it is a block of \<open>MAXSIZE\<close> bytes, \<^verbatim>\<open>buf = malloc(MAXSIZE)\<close>,
  whose contents survive from one read to the next. A read of \<open>n\<close> bytes overwrites its first
  \<open>n\<close> cells; the block keeps its size (a read is asked for \<open>MAXSIZE\<close> bytes and delivers no
  more). An access at an index outside the block is undefined behaviour and ends the model
  with \<open>Undefined_access\<close>.
\<close>

definition malloc :: "nat \<Rightarrow> byte list" where
  "malloc n = replicate n 0"

definition fill :: "byte list \<Rightarrow> byte list \<Rightarrow> byte list" where
  "fill buf bs = take (length buf) (bs @ drop (length bs) buf)"

text \<open>\<^verbatim>\<open>*last = '\n'\<close> with \<^verbatim>\<open>last = p + bytes_read\<close>, as a store at index \<open>i\<close> of the buffer.\<close>

definition store :: "byte list \<Rightarrow> int \<Rightarrow> byte \<Rightarrow> failure + byte list" where
  "store buf i v = (if 0 \<le> i \<and> i < int (length buf) then Inr (buf[nat i := v]) else Inl (Undefined_access i))"

text \<open>
  \<^verbatim>\<open>memchr(p, '\n', (size_t)-1)\<close>: the search has no bound of its own, it stops at the first
  newline at or after \<open>p\<close>, and runs off the buffer when there is none.
\<close>

function memchr :: "byte list \<Rightarrow> nat \<Rightarrow> failure + nat" where
  "memchr buf p =
     (if p < length buf
      then (if buf ! p = 10 then Inr p else memchr buf (p + 1))
      else Inl (Undefined_access (int p)))"
  by pat_completeness auto
termination
  by (relation "measure (\<lambda>(buf, p). length buf - p)") auto

declare memchr.simps [simp del]

lemma memchr_range: "memchr buf p = Inr q \<Longrightarrow> p \<le> q \<and> q < length buf"
proof (induction buf p rule: memchr.induct)
  case (1 buf p)
  then show ?case
    by (subst (asm) (2) memchr.simps) (auto split: if_splits)
qed

text \<open>\<^verbatim>\<open>for (; (p = memchr(p, '\n', (size_t)-1)) < last; p++) li->num_lines++;\<close>\<close>

function long_loop :: "byte list \<Rightarrow> nat \<Rightarrow> nat \<Rightarrow> uintmax_t \<Rightarrow> failure + uintmax_t" where
  "long_loop buf p lastp nl =
     (case memchr buf p of
        Inl e \<Rightarrow> Inl e
      | Inr q \<Rightarrow> if q < lastp then long_loop buf (q + 1) lastp (nl + 1) else Inr nl)"
  by pat_completeness auto
termination
  by (relation "measure (\<lambda>(buf, p, lastp, nl). length buf - p)")
     (auto dest!: memchr_range)

declare long_loop.simps [simp del]

text \<open>
  \<^verbatim>\<open>while (bytes_read--) if (*p++ == '\n') li->num_lines++;\<close> The loop ends when the
  counter reaches 0; started below 0 it walks on until it leaves the buffer.
\<close>

function short_loop :: "byte list \<Rightarrow> int \<Rightarrow> nat \<Rightarrow> uintmax_t \<Rightarrow> failure + uintmax_t" where
  "short_loop buf n p nl =
     (if n = 0 then Inr nl
      else if p < length buf
      then short_loop buf (n - 1) (p + 1) (if buf ! p = 10 then nl + 1 else nl)
      else Inl (Undefined_access (int p)))"
  by pat_completeness auto
termination
  by (relation "measure (\<lambda>(buf, n, p, nl). length buf - p)") auto

declare short_loop.simps [simp del]

text \<open>The locals of the read loop: the buffer, \<open>expect_long\<close>, \<open>li->num_lines\<close> and \<open>sum_bytes\<close>.\<close>

record clb_locals =
  buf :: "byte list"
  expect_long :: bool
  lines :: uintmax_t
  sum :: uintmax_t

text \<open>The body of the read loop for one read that did not return 0.\<close>

definition clb_body :: "rd \<Rightarrow> clb_locals \<Rightarrow> failure + clb_locals" where
  "clb_body r s =
     (let b = fill (buf s) (data r);
          s1 = s\<lparr>buf := b, sum := sum s + word_of_int (ret r)\<rparr>
      in if expect_long s
         then (case store b (ret r) 10 of
                 Inl e \<Rightarrow> Inl e
               | Inr b' \<Rightarrow>
                   (case long_loop b' 0 (nat (ret r)) (lines s) of
                      Inl e \<Rightarrow> Inl e
                    | Inr nl \<Rightarrow> Inr (s1\<lparr>buf := b', lines := nl\<rparr>)))
         else (case short_loop b (ret r) 0 (lines s) of
                 Inl e \<Rightarrow> Inl e
               | Inr nl \<Rightarrow>
                   Inr (s1\<lparr>expect_long := (word_of_int (ret r * 6) \<le> lines s), lines := nl\<rparr>)))"

fun clb_reads :: "rd list \<Rightarrow> clb_locals \<Rightarrow> failure + clb_locals \<times> rd list" where
  "clb_reads [] s = Inr (s, [])"
| "clb_reads (r # rs) s =
     (if ret r = 0 then Inr (s, rs)
      else (case clb_body r s of Inl e \<Rightarrow> Inl e | Inr s' \<Rightarrow> clb_reads rs s'))"

definition count_lines_and_bytes :: "'s libc \<Rightarrow> lc_info \<Rightarrow> source \<Rightarrow> failure + lc_info \<times> source" where
  "count_lines_and_bytes L li fd =
     (if \<not> malloc_ok L then Inl Exit_malloc
      else
        (let li1 = li\<lparr>num_bytes := 0\<rparr> in
         case fstat fd of
           None \<Rightarrow> Inl Exit_fstat
         | Some st \<Rightarrow>
             (let li2 = (if S_ISREG st \<and> 0 <s st_size st
                         then li1\<lparr>num_bytes := st_size st\<rparr> else li1)
              in case clb_reads (reads fd)
                        \<lparr>buf = malloc MAXSIZE, expect_long = False, lines = 0, sum = 0\<rparr> of
                   Inl e \<Rightarrow> Inl e
                 | Inr (s, rs) \<Rightarrow>
                     Inr (li2\<lparr>num_lines := lines s,
                              num_bytes := (if num_bytes li2 = 0 then sum s else num_bytes li2)\<rparr>,
                          close (fd\<lparr>reads := rs\<rparr>)))))"

subsection \<open>\<open>use_opts\<close> and \<open>main\<close>\<close>

text \<open>The conversion \<^verbatim>\<open>%12ju\<close>: decimal digits, padded with blanks on the left to 12 columns.\<close>

function digits :: "nat \<Rightarrow> string" where
  "digits n =
     (if n < 10 then [''0123456789'' ! n] else digits (n div 10) @ [''0123456789'' ! (n mod 10)])"
  by pat_completeness auto
termination
  by (relation "measure id") auto

declare digits.simps [simp del]

definition fmt12 :: "uintmax_t \<Rightarrow> string" where
  "fmt12 w = replicate (12 - length (digits (unat w))) CHR '' '' @ digits (unat w)"

text \<open>
  \<open>use_opts\<close> picks the scan from the flags, prints the counts it asked for and adds them to
  the totals. It returns the updated \<open>li\<close> and \<open>lc\<close>, the descriptor as the scan left it, and
  the text written to \<^verbatim>\<open>stdout\<close>.
\<close>

definition use_opts ::
  "'s libc \<Rightarrow> lc_info \<Rightarrow> lc_conf \<Rightarrow> source \<Rightarrow> failure + lc_info \<times> lc_conf \<times> source \<times> string" where
  "use_opts L li lc0 fd =
     (let lc = (if \<not> opt_lines lc0 \<and> \<not> opt_words lc0 \<and> \<not> opt_bytes lc0
                then lc0\<lparr>opt_bytes := True, opt_lines := True, opt_words := True\<rparr> else lc0)
      in
      if opt_lines lc \<and> opt_words lc \<and> opt_bytes lc then
        (case count_all L li fd of Inl e \<Rightarrow> Inl e
         | Inr (l, fd') \<Rightarrow>
             Inr (l\<lparr>lines_total := lines_total l + num_lines l,
                     words_total := words_total l + num_words l,
                     bytes_total := bytes_total l + num_bytes l\<rparr>, lc, fd',
                  fmt12 (num_lines l) @ fmt12 (num_words l) @ fmt12 (num_bytes l)))
      else if opt_bytes lc \<and> \<not> opt_lines lc \<and> \<not> opt_words lc then
        (case count_bytes L li fd of Inl e \<Rightarrow> Inl e
         | Inr (l, fd') \<Rightarrow>
             Inr (l\<lparr>bytes_total := bytes_total l + num_bytes l\<rparr>, lc, fd', fmt12 (num_bytes l)))
      else if opt_lines lc \<and> \<not> opt_bytes lc \<and> \<not> opt_words lc then
        (case count_lines_and_bytes L li fd of Inl e \<Rightarrow> Inl e
         | Inr (l, fd') \<Rightarrow>
             Inr (l\<lparr>lines_total := lines_total l + num_lines l\<rparr>, lc, fd', fmt12 (num_lines l)))
      else if opt_lines lc \<and> opt_bytes lc \<and> \<not> opt_words lc then
        (case count_lines_and_bytes L li fd of Inl e \<Rightarrow> Inl e
         | Inr (l, fd') \<Rightarrow>
             Inr (l\<lparr>lines_total := lines_total l + num_lines l,
                     bytes_total := bytes_total l + num_bytes l\<rparr>, lc, fd',
                  fmt12 (num_lines l) @ fmt12 (num_bytes l)))
      else if opt_words lc \<and> \<not> opt_lines lc \<and> \<not> opt_bytes lc then
        (case count_words L li fd of Inl e \<Rightarrow> Inl e
         | Inr (l, fd') \<Rightarrow>
             Inr (l\<lparr>words_total := words_total l + num_words l\<rparr>, lc, fd', fmt12 (num_words l)))
      else if opt_lines lc \<and> opt_words lc \<and> \<not> opt_bytes lc then
        (case count_all L li fd of Inl e \<Rightarrow> Inl e
         | Inr (l, fd') \<Rightarrow>
             Inr (l\<lparr>lines_total := lines_total l + num_lines l,
                     words_total := words_total l + num_words l\<rparr>, lc, fd',
                  fmt12 (num_lines l) @ fmt12 (num_words l)))
      else if opt_bytes lc \<and> opt_words lc \<and> \<not> opt_lines lc then
        (case count_all L li fd of Inl e \<Rightarrow> Inl e
         | Inr (l, fd') \<Rightarrow>
             Inr (l\<lparr>words_total := words_total l + num_words l,
                     bytes_total := bytes_total l + num_bytes l\<rparr>, lc, fd',
                  fmt12 (num_words l) @ fmt12 (num_bytes l)))
      else Inr (li, lc, fd, []))"

text \<open>
  \<open>main\<close> from the point where \<^verbatim>\<open>getopt\<close> has filled \<open>lc\<close> and \<open>argv\<close> holds the file
  arguments. \<open>fs\<close> is \<^verbatim>\<open>open(arg, O_RDONLY)\<close>: \<open>None\<close> when it returns \<open>-1\<close>.
  The state of the driver is \<open>li\<close>, \<open>lc\<close> and the text written to \<^verbatim>\<open>stdout\<close> so far; an exit
  keeps that text (\<^verbatim>\<open>exit\<close> flushes the stream).
\<close>

type_synonym driver = "lc_info \<times> lc_conf \<times> string"

text \<open>One file argument that opened: scan, print the name, close. The descriptor is returned for inspection.\<close>

definition run_file ::
  "'s libc \<Rightarrow> string \<Rightarrow> source \<Rightarrow> driver \<Rightarrow> failure \<times> string + driver \<times> source" where
  "run_file L arg fd st =
     (case st of (li, lc, out) \<Rightarrow>
        (case use_opts L li lc fd of
           Inl e \<Rightarrow> Inl (e, out)
         | Inr (li', lc', fd', txt) \<Rightarrow>
             Inr ((li', lc', out @ txt @ '' '' @ arg @ [CHR 10]), close fd')))"

fun main_loop ::
  "'s libc \<Rightarrow> (string \<Rightarrow> source option) \<Rightarrow> string list \<Rightarrow> driver \<Rightarrow> failure \<times> string + driver" where
  "main_loop L fs [] st = Inr st"
| "main_loop L fs (arg # argv) st =
     (if arg = ''-'' then Inl (Exit_invalid_prefix, snd (snd st))
      else (case fs arg of
              None \<Rightarrow> Inl (Exit_open arg, snd (snd st))
            | Some fd \<Rightarrow>
                (case run_file L arg fd st of
                   Inl e \<Rightarrow> Inl e
                 | Inr (st', fd') \<Rightarrow> main_loop L fs argv st')))"

definition total_line :: "lc_conf \<Rightarrow> lc_info \<Rightarrow> string" where
  "total_line lc li =
     (if opt_lines lc \<and> opt_words lc \<and> \<not> opt_bytes lc
      then fmt12 (lines_total li) @ fmt12 (words_total li)
      else if opt_lines lc \<and> \<not> opt_words lc \<and> \<not> opt_bytes lc
      then fmt12 (lines_total li)
      else if \<not> opt_lines lc \<and> opt_words lc \<and> opt_bytes lc
      then fmt12 (words_total li) @ fmt12 (bytes_total li)
      else if \<not> opt_lines lc \<and> \<not> opt_words lc \<and> opt_bytes lc
      then fmt12 (bytes_total li)
      else if opt_lines lc \<and> \<not> opt_words lc \<and> opt_bytes lc
      then fmt12 (lines_total li) @ fmt12 (bytes_total li)
      else if \<not> opt_lines lc \<and> opt_words lc \<and> \<not> opt_bytes lc
      then fmt12 (words_total li)
      else fmt12 (lines_total li) @ fmt12 (words_total li) @ fmt12 (bytes_total li))
     @ '' total'' @ [CHR 10]"

definition lc_info0 :: lc_info where
  "lc_info0 = \<lparr>num_bytes = 0, num_lines = 0, num_words = 0,
               lines_total = 0, words_total = 0, bytes_total = 0\<rparr>"

text \<open>The result of \<open>main\<close>: how it ended (\<open>None\<close>: it returned 0) and what \<^verbatim>\<open>stdout\<close> received.\<close>

definition main ::
  "'s libc \<Rightarrow> (string \<Rightarrow> source option) \<Rightarrow> lc_conf \<Rightarrow> string list \<Rightarrow> failure option \<times> string" where
  "main L fs lc argv =
     (if argv = [] then
        (case fs ''/dev/stdin'' of
           None \<Rightarrow> (Some (Exit_open ''open()''), [])
         | Some fd \<Rightarrow>
             (case use_opts L lc_info0 lc fd of
                Inl e \<Rightarrow> (Some e, [])
              | Inr (li', lc', fd', txt) \<Rightarrow> (None, txt @ [CHR 10])))
      else
        (case main_loop L fs argv (lc_info0, lc, []) of
           Inl (e, out) \<Rightarrow> (Some e, out)
         | Inr (li', lc', out) \<Rightarrow>
             (None, if 1 < length argv then out @ total_line lc' li' else out)))"

subsection \<open>The C locale\<close>

text \<open>
  \<^verbatim>\<open>lc.c\<close> never calls \<^verbatim>\<open>setlocale\<close>, so the program runs in the \<^verbatim>\<open>"C"\<close> locale it starts in:
  every byte below \<open>0x80\<close> is a character of its own, the other bytes are invalid, and there
  is no conversion state.
\<close>

definition c_mbrtowc :: "unit \<Rightarrow> byte list \<Rightarrow> mbresult \<times> unit" where
  "c_mbrtowc st bs =
     (case bs of
        [] \<Rightarrow> (MbIncomplete, st)
      | b # _ \<Rightarrow> if b = 0 then (MbChar 0 0, st)
                 else if b < 128 then (MbChar 1 (unat b), st)
                 else (MbInvalid, st))"

definition c_iswspace :: "wchar_t \<Rightarrow> bool" where
  "c_iswspace wc = (wc = 32 \<or> (9 \<le> wc \<and> wc \<le> 13))"

definition c_locale :: "unit libc" where
  "c_locale = \<lparr>mbrtowc = c_mbrtowc, iswspace = c_iswspace, mbstate0 = (), malloc_ok = True\<rparr>"

text \<open>
  The whitespace characters of the \<^verbatim>\<open>"C"\<close> locale, as bytes: the blank and
  \<^verbatim>\<open>\t \n \v \f \r\<close>.
\<close>

definition c_isspace :: "byte \<Rightarrow> bool" where
  "c_isspace b = (b = 32 \<or> (9 \<le> b \<and> b \<le> 13))"

subsection \<open>The lines-and-bytes scan without the promotion\<close>

text \<open>
  For comparison: \<open>count_lines_and_bytes\<close> with \<open>expect_long\<close> held at 0, so that every
  block goes through the byte-at-a-time loop.
\<close>

fun clb_reads_bytewise :: "rd list \<Rightarrow> clb_locals \<Rightarrow> failure + clb_locals \<times> rd list" where
  "clb_reads_bytewise [] s = Inr (s, [])"
| "clb_reads_bytewise (r # rs) s =
     (if ret r = 0 then Inr (s, rs)
      else (case clb_body r (s\<lparr>expect_long := False\<rparr>) of
              Inl e \<Rightarrow> Inl e
            | Inr s' \<Rightarrow> clb_reads_bytewise rs s'))"

definition count_lines_bytewise :: "'s libc \<Rightarrow> lc_info \<Rightarrow> source \<Rightarrow> failure + lc_info \<times> source" where
  "count_lines_bytewise L li fd =
     (if \<not> malloc_ok L then Inl Exit_malloc
      else
        (let li1 = li\<lparr>num_bytes := 0\<rparr> in
         case fstat fd of
           None \<Rightarrow> Inl Exit_fstat
         | Some st \<Rightarrow>
             (let li2 = (if S_ISREG st \<and> 0 <s st_size st
                         then li1\<lparr>num_bytes := st_size st\<rparr> else li1)
              in case clb_reads_bytewise (reads fd)
                        \<lparr>buf = malloc MAXSIZE, expect_long = False, lines = 0, sum = 0\<rparr> of
                   Inl e \<Rightarrow> Inl e
                 | Inr (s, rs) \<Rightarrow>
                     Inr (li2\<lparr>num_lines := lines s,
                              num_bytes := (if num_bytes li2 = 0 then sum s else num_bytes li2)\<rparr>,
                          close (fd\<lparr>reads := rs\<rparr>)))))"

subsection \<open>Notions the properties are stated with\<close>

text \<open>The sum of the values of the reads up to the first read that returns 0, as \<^verbatim>\<open>uintmax_t\<close>.\<close>

fun ret_sum :: "rd list \<Rightarrow> uintmax_t" where
  "ret_sum [] = 0"
| "ret_sum (r # rs) = (if ret r = 0 then 0 else word_of_int (ret r) + ret_sum rs)"

text \<open>Two kinds of descriptor: a pipe (not a regular file) and a regular file of a declared size.\<close>

definition pipe :: "rd list \<Rightarrow> source" where
  "pipe rs = \<lparr>fstat = Some \<lparr>S_ISREG = False, st_size = 0\<rparr>, reads = rs, closes = 0\<rparr>"

definition regular :: "64 word \<Rightarrow> rd list \<Rightarrow> source" where
  "regular n rs = \<lparr>fstat = Some \<lparr>S_ISREG = True, st_size = n\<rparr>, reads = rs, closes = 0\<rparr>"

text \<open>The exit status of the process: \<^verbatim>\<open>EXIT_FAILURE\<close> is 1; after undefined behaviour there is none to speak of.\<close>

fun exit_status :: "failure option \<Rightarrow> nat option" where
  "exit_status None = Some 0"
| "exit_status (Some (Undefined_access i)) = None"
| "exit_status (Some e) = Some 1"

text \<open>A file system with one file, \<^verbatim>\<open>f1\<close>, holding \<^verbatim>\<open>abc\<close> and a newline; no other name opens.\<close>

definition fs1 :: "string \<Rightarrow> source option" where
  "fs1 n = (if n = ''f1'' then Some (pipe [Rd [97, 98, 99, 10]]) else None)"

text \<open>
  The word segmentation state machine of the specification: \<open>sm_words q cs\<close> is the number
  of transitions from \<open>IN_SPACE\<close> to \<open>IN_WORD\<close> on the classes \<open>cs\<close> from state \<open>q\<close>,
  \<open>sm_end q cs\<close> the state reached.
\<close>

datatype seg = IN_SPACE | IN_WORD

fun sm_words :: "seg \<Rightarrow> bool list \<Rightarrow> nat" where
  "sm_words q [] = 0"
| "sm_words q (c # cs) =
     (if c then sm_words IN_SPACE cs
      else (if q = IN_SPACE then 1 else 0) + sm_words IN_WORD cs)"

fun sm_end :: "seg \<Rightarrow> bool list \<Rightarrow> seg" where
  "sm_end q [] = q"
| "sm_end q (c # cs) = sm_end (if c then IN_SPACE else IN_WORD) cs"

text \<open>The maximal runs of non-whitespace classes: skip whitespace, take a run, go on behind it.\<close>

lemma length_dropWhile_less:
  "dropWhile id cs = c # w \<Longrightarrow> length (dropWhile Not (c # w)) < length cs"
proof -
  assume a: "dropWhile id cs = c # w"
  then have "\<not> c" using hd_dropWhile [of id cs] by auto
  then have "length (dropWhile Not (c # w)) \<le> length w"
    by (simp add: length_dropWhile_le)
  also have "length w < length (dropWhile id cs)" using a by simp
  also have "\<dots> \<le> length cs" by (rule length_dropWhile_le)
  finally show ?thesis .
qed

function word_runs :: "bool list \<Rightarrow> bool list list" where
  "word_runs cs =
     (case dropWhile id cs of
        [] \<Rightarrow> []
      | c # w \<Rightarrow> takeWhile Not (c # w) # word_runs (dropWhile Not (c # w)))"
  by pat_completeness auto
termination
proof (relation "measure length", goal_cases)
  case 1
  show ?case by simp
next
  case (2 cs c w)
  then show ?case
    unfolding in_measure by (rule length_dropWhile_less)
qed

declare word_runs.simps [simp del]

definition seg_of :: "bool \<Rightarrow> seg" where
  "seg_of hs = (if hs then IN_SPACE else IN_WORD)"

text \<open>Two scans agree on what the word count depends on.\<close>

definition wsame :: "'s locals \<Rightarrow> 's locals \<Rightarrow> bool" where
  "wsame s t = (mst s = mst t \<and> have_space s = have_space t \<and> num_words (info s) = num_words (info t))"

section \<open>Properties\<close>

subsection \<open>Unfolding the loops on given input\<close>

lemma all_buf_Nil: "all_buf L [] s = s"
  by (simp add: all_buf.simps)

lemma all_buf_Cons:
  "all_buf L (b # bs) s =
     all_buf L (drop (fst (all_step L (b # bs) s)) (b # bs)) (snd (all_step L (b # bs) s))"
  by (subst all_buf.simps) simp

lemma words_buf_Nil: "words_buf L [] s = s"
  by (simp add: words_buf.simps)

lemma words_buf_Cons:
  "words_buf L (b # bs) s =
     words_buf L (drop (fst (words_step L (b # bs) s)) (b # bs)) (snd (words_step L (b # bs) s))"
  by (subst words_buf.simps) simp

lemma replicate_num: "replicate (numeral k) x = x # replicate (pred_numeral k) x"
  by (simp add: numeral_eq_Suc)

lemma digits_small: "n < 10 \<Longrightarrow> digits n = [''0123456789'' ! n]"
  by (simp add: digits.simps)

lemmas eval_scan = all_buf_Nil all_buf_Cons words_buf_Nil words_buf_Cons all_step_def
  words_step_def char_val_def is_ascii_def is_print_def is_space_def note_class_def
  bump_lines_def Let_def

subsection \<open>Byte counts\<close>

lemma ret_sum_stream: "RdErr \<notin> set rs \<Longrightarrow> ret_sum rs = of_nat (length (stream_of rs))"
proof (induction rs)
  case Nil
  then show ?case by simp
next
  case (Cons r rs)
  then show ?case by (cases r) auto
qed

lemma bytes_reads_sum: "fst (bytes_reads rs nb) = nb + ret_sum rs"
  by (induction rs arbitrary: nb) (auto simp: add.assoc)

lemma note_class_frame [simp]:
  "sum_bytes (note_class sp s) = sum_bytes s"
  "num_bytes (info (note_class sp s)) = num_bytes (info s)"
  "num_lines (info (note_class sp s)) = num_lines (info s)"
  "mst (note_class sp s) = mst s"
  by (simp_all add: note_class_def)

lemma bump_lines_frame [simp]:
  "sum_bytes (bump_lines s) = sum_bytes s"
  "num_bytes (info (bump_lines s)) = num_bytes (info s)"
  "num_words (info (bump_lines s)) = num_words (info s)"
  "have_space (bump_lines s) = have_space s"
  "mst (bump_lines s) = mst s"
  by (simp_all add: bump_lines_def)

lemma all_step_frame:
  "sum_bytes (snd (all_step L bs s)) = sum_bytes s"
  "num_bytes (info (snd (all_step L bs s))) = num_bytes (info s)"
  by (simp_all add: all_step_def Let_def split: prod.splits)

lemma all_buf_frame:
  "sum_bytes (all_buf L bs s) = sum_bytes s \<and> num_bytes (info (all_buf L bs s)) = num_bytes (info s)"
proof (induction L bs s rule: all_buf.induct)
  case (1 L bs s)
  show ?case
  proof (cases "bs = []")
    case True
    then show ?thesis by (simp add: all_buf.simps)
  next
    case False
    with 1 show ?thesis
      by (subst (1 2) all_buf.simps) (simp add: all_step_frame)
  qed
qed

lemma all_reads_frame:
  "sum_bytes (fst (all_reads L rs s)) = sum_bytes s + ret_sum rs \<and>
   num_bytes (info (fst (all_reads L rs s))) = num_bytes (info s)"
  by (induction rs arbitrary: s) (auto simp: all_buf_frame add.assoc)

lemma positive_size_nonzero: "0 <s (w :: 64 word) \<Longrightarrow> w \<noteq> 0"
  by auto

lemma count_bytes_regular:
  "fstat fd = Some st \<Longrightarrow> S_ISREG st \<Longrightarrow> 0 <s st_size st \<Longrightarrow>
   count_bytes L li fd = Inr (li\<lparr>num_bytes := st_size st\<rparr>, close fd)"
  by (simp add: count_bytes_def)

lemma count_bytes_drain:
  "fstat fd = Some st \<Longrightarrow> \<not> (S_ISREG st \<and> 0 <s st_size st) \<Longrightarrow> malloc_ok L \<Longrightarrow>
   count_bytes L li fd =
     Inr (li\<lparr>num_bytes := ret_sum (reads fd)\<rparr>, close (fd\<lparr>reads := snd (bytes_reads (reads fd) 0)\<rparr>))"
  using bytes_reads_sum [of "reads fd" 0]
  by (auto simp: count_bytes_def split: prod.splits)

lemma count_all_bytes:
  assumes "fstat fd = Some st" "malloc_ok L"
  shows "\<exists>li' fd'. count_all L li fd = Inr (li', fd') \<and>
     num_bytes li' = (if S_ISREG st \<and> 0 <s st_size st then st_size st else ret_sum (reads fd))"
proof -
  let ?li1 = "li\<lparr>num_bytes := 0, num_lines := 0, num_words := 0\<rparr>"
  let ?li2 = "if S_ISREG st \<and> 0 <s st_size st then ?li1\<lparr>num_bytes := st_size st\<rparr> else ?li1"
  let ?S0 = "\<lparr>mst = mbstate0 L, have_space = True, sum_bytes = 0, info = ?li2\<rparr>"
  obtain s rs where r: "all_reads L (reads fd) ?S0 = (s, rs)"
    by force
  from all_reads_frame [of L "reads fd" ?S0] r
  have "sum_bytes s = ret_sum (reads fd)" "num_bytes (info s) = num_bytes ?li2"
    by simp_all
  with assms r show ?thesis
    by (auto simp: count_all_def Let_def dest: positive_size_nonzero)
qed

subsection \<open>The two line loops\<close>

lemma short_loop_count:
  "p + k \<le> length b \<Longrightarrow>
   short_loop b (int k) p nl = Inr (nl + of_nat (count_list (take k (drop p b)) 10))"
proof (induction k arbitrary: p nl)
  case 0
  then show ?case by (simp add: short_loop.simps)
next
  case (Suc k)
  then have p: "p < length b" by simp
  then have split: "take (Suc k) (drop p b) = b ! p # take k (drop (Suc p) b)"
    by (simp add: Cons_nth_drop_Suc [symmetric])
  from Suc.prems have "Suc p + k \<le> length b" by simp
  from Suc.IH [OF this] p show ?case
    by (subst short_loop.simps) (simp add: split)
qed

lemma short_loop_neg:
  "n < 0 \<Longrightarrow> p \<le> length b \<Longrightarrow> short_loop b n p nl = Inl (Undefined_access (int (length b)))"
proof (induction "length b - p" arbitrary: n p nl)
  case 0
  then show ?case by (subst short_loop.simps) simp
next
  case (Suc d)
  then have "p < length b" "d = length b - (p + 1)" "n - 1 < 0" "p + 1 \<le> length b" by simp_all
  with Suc.hyps(1) [of "p + 1" "n - 1"] Suc.prems show ?case
    by (subst short_loop.simps) simp
qed

lemma short_loop_beyond:
  "p \<le> length b \<Longrightarrow> int (length b - p) < n \<Longrightarrow>
   short_loop b n p nl = Inl (Undefined_access (int (length b)))"
proof (induction "length b - p" arbitrary: n p nl)
  case 0
  then show ?case by (subst short_loop.simps) simp
next
  case (Suc d)
  then have "p < length b" "d = length b - (p + 1)" "p + 1 \<le> length b"
    "int (length b - (p + 1)) < n - 1" "n \<noteq> 0" by simp_all
  with Suc.hyps(1) [of "p + 1" "n - 1"] show ?case
    by (subst short_loop.simps) simp
qed

lemma memchr_first:
  "q < length b \<Longrightarrow> b ! q = 10 \<Longrightarrow> p \<le> q \<Longrightarrow> \<forall>i. p \<le> i \<and> i < q \<longrightarrow> b ! i \<noteq> 10 \<Longrightarrow>
   memchr b p = Inr q"
proof (induction "q - p" arbitrary: p)
  case 0
  then show ?case by (subst memchr.simps) simp
next
  case (Suc d)
  then have "p < q" "d = q - (p + 1)" "p + 1 \<le> q" "b ! p \<noteq> 10" by simp_all
  with Suc.hyps(1) [of "p + 1"] Suc.prems show ?case
    by (subst memchr.simps) simp
qed

lemma take_segment:
  assumes "p \<le> q" "q < e" "q < length b"
  shows "take (e - p) (drop p b) = take (q - p) (drop p b) @ b ! q # take (e - (q + 1)) (drop (q + 1) b)"
proof -
  have e: "e - p = (q - p) + Suc (e - (q + 1))"
    using assms by simp
  have d: "drop (q - p) (drop p b) = b ! q # drop (q + 1) b"
    using assms by (simp add: Cons_nth_drop_Suc)
  show ?thesis
    by (simp only: e take_add d take_Suc_Cons)
qed

lemma long_loop_count:
  "lastp < length b \<Longrightarrow> b ! lastp = 10 \<Longrightarrow> p \<le> lastp \<Longrightarrow>
   long_loop b p lastp nl = Inr (nl + of_nat (count_list (take (lastp - p) (drop p b)) 10))"
proof (induction "lastp - p" arbitrary: p nl rule: less_induct)
  case less
  define q where "q = (LEAST i. p \<le> i \<and> b ! i = 10)"
  have ex: "p \<le> lastp \<and> b ! lastp = 10" using less.prems by simp
  have q1: "p \<le> q \<and> b ! q = 10" unfolding q_def by (rule LeastI [of _ lastp]) (rule ex)
  have q2: "q \<le> lastp" unfolding q_def by (rule Least_le) (rule ex)
  have q3: "\<forall>i. p \<le> i \<and> i < q \<longrightarrow> b ! i \<noteq> 10"
    unfolding q_def using not_less_Least by blast
  have m: "memchr b p = Inr q"
    using memchr_first [of q b p] q1 q2 q3 less.prems by simp
  have none: "count_list (take (q - p) (drop p b)) 10 = 0"
    using q3 q2 less.prems
    by (auto simp: count_list_0_iff in_set_conv_nth)
  show ?case
  proof (cases "q < lastp")
    case True
    have seg: "take (lastp - p) (drop p b) =
               take (q - p) (drop p b) @ b ! q # take (lastp - (q + 1)) (drop (q + 1) b)"
      using take_segment [of p q lastp b] q1 True less.prems by simp
    have "long_loop b (q + 1) lastp (nl + 1) =
          Inr (nl + 1 + of_nat (count_list (take (lastp - (q + 1)) (drop (q + 1) b)) 10))"
    proof -
      have "lastp - (q + 1) < lastp - p" "q + 1 \<le> lastp" using True q1 by auto
      then show ?thesis using less.hyps [of "q + 1" "nl + 1"] less.prems by blast
    qed
    then show ?thesis
      using m True q1 none by (subst long_loop.simps) (simp add: seg)
  next
    case False
    then have "q = lastp" using q2 by simp
    then show ?thesis
      using m none by (subst long_loop.simps) simp
  qed
qed

lemma length_fill [simp]: "length (fill b bs) = length b"
  by (simp add: fill_def)

lemma take_fill: "length bs \<le> length b \<Longrightarrow> take (length bs) (fill b bs) = bs"
  by (simp add: fill_def)

lemma clb_body_short:
  assumes "\<not> expect_long s" "length bs \<le> length (buf s)"
  shows "clb_body (Rd bs) s =
     Inr (s\<lparr>buf := fill (buf s) bs, sum := sum s + of_nat (length bs),
            expect_long := (of_nat (length bs * 6) \<le> lines s),
            lines := lines s + of_nat (count_list bs 10)\<rparr>)"
  using assms short_loop_count [of 0 "length bs" "fill (buf s) bs" "lines s"]
  by (simp add: clb_body_def Let_def take_fill)

lemma clb_body_long:
  assumes "expect_long s" "length bs < length (buf s)"
  shows "clb_body (Rd bs) s =
     Inr (s\<lparr>buf := (fill (buf s) bs)[length bs := 10], sum := sum s + of_nat (length bs),
            lines := lines s + of_nat (count_list bs 10)\<rparr>)"
proof -
  let ?b = "(fill (buf s) bs)[length bs := 10]"
  have "take (length bs) ?b = bs"
    using assms by (simp add: take_fill)
  then have "long_loop ?b 0 (length bs) (lines s) = Inr (lines s + of_nat (count_list bs 10))"
    using long_loop_count [of "length bs" ?b 0 "lines s"] assms by simp
  then show ?thesis
    using assms by (simp add: clb_body_def Let_def store_def)
qed

lemma clb_body_overrun:
  assumes "expect_long s" "length (buf s) \<le> length bs"
  shows "clb_body (Rd bs) s = Inl (Undefined_access (int (length bs)))"
  using assms by (simp add: clb_body_def Let_def store_def)

lemma clb_body_too_long:
  assumes "\<not> expect_long s" "length (buf s) < length bs"
  shows "clb_body (Rd bs) s = Inl (Undefined_access (int (length (buf s))))"
  using assms short_loop_beyond [of 0 "fill (buf s) bs" "int (length bs)" "lines s"]
  by (simp add: clb_body_def Let_def)

lemma clb_body_err:
  "clb_body RdErr s = Inl (Undefined_access (if expect_long s then - 1 else int (length (buf s))))"
  using short_loop_neg [of "- 1" 0 "fill (buf s) []" "lines s"]
  by (simp add: clb_body_def Let_def store_def)

lemma clb_body_Inr:
  assumes "clb_body r s = Inr s'"
  shows "lines s' = lines s + of_nat (count_list (data r) 10) \<and> length (buf s') = length (buf s)
         \<and> sum s' = sum s + word_of_int (ret r) \<and> r \<noteq> RdErr"
proof (cases r)
  case (Rd bs)
  show ?thesis
  proof (cases "expect_long s")
    case True
    have "length bs < length (buf s)"
    proof (rule ccontr)
      assume "\<not> length bs < length (buf s)"
      then have "clb_body (Rd bs) s = Inl (Undefined_access (int (length bs)))"
        using True by (intro clb_body_overrun) simp_all
      with assms Rd show False by simp
    qed
    from clb_body_long [OF True this] assms Rd have "s' = s\<lparr>buf := (fill (buf s) bs)[length bs := 10], sum := sum s + of_nat (length bs),
            lines := lines s + of_nat (count_list bs 10)\<rparr>" by simp
    then show ?thesis using Rd by simp
  next
    case False
    have "length bs \<le> length (buf s)"
    proof (rule ccontr)
      assume "\<not> length bs \<le> length (buf s)"
      then have "clb_body (Rd bs) s = Inl (Undefined_access (int (length (buf s))))"
        using False by (intro clb_body_too_long) simp_all
      with assms Rd show False by simp
    qed
    from clb_body_short [OF False this] assms Rd have "s' = s\<lparr>buf := fill (buf s) bs, sum := sum s + of_nat (length bs),
            expect_long := (of_nat (length bs * 6) \<le> lines s),
            lines := lines s + of_nat (count_list bs 10)\<rparr>" by simp
    then show ?thesis using Rd by simp
  qed
next
  case RdErr
  with assms show ?thesis by (simp add: clb_body_err)
qed

lemma clb_reads_Inr:
  "clb_reads rs s = Inr (s', rs') \<Longrightarrow>
   lines s' = lines s + of_nat (count_list (stream_of rs) 10) \<and> length (buf s') = length (buf s)
   \<and> sum s' = sum s + ret_sum rs"
proof (induction rs arbitrary: s)
  case Nil
  then show ?case by simp
next
  case (Cons r rs)
  show ?case
  proof (cases "ret r = 0")
    case True
    with Cons.prems show ?thesis by simp
  next
    case False
    with Cons.prems obtain s1 where b: "clb_body r s = Inr s1" and rest: "clb_reads rs s1 = Inr (s', rs')"
      by (auto split: sum.splits)
    from clb_body_Inr [OF b] Cons.IH [OF rest] False show ?thesis
      by (simp add: add.assoc)
  qed
qed

lemma clb_reads_total:
  "\<forall>r \<in> set rs. r \<noteq> RdErr \<and> length (data r) < length (buf s) \<Longrightarrow> \<exists>res. clb_reads rs s = Inr res"
proof (induction rs arbitrary: s)
  case Nil
  then show ?case by simp
next
  case (Cons r rs)
  then obtain bs where r: "r = Rd bs" and len: "length bs < length (buf s)"
    by (cases r) auto
  obtain s1 where b: "clb_body r s = Inr s1"
    using r len clb_body_long [of s bs] clb_body_short [of s bs] by (cases "expect_long s") auto
  from clb_body_Inr [OF b] have "length (buf s1) = length (buf s)" by simp
  with Cons.prems have "\<forall>r \<in> set rs. r \<noteq> RdErr \<and> length (data r) < length (buf s1)" by simp
  from Cons.IH [OF this] b show ?case by auto
qed


lemma count_list_replicate: "count_list (replicate n x) y = (if x = y then n else 0)"
  by (induction n) auto

lemma length_malloc [simp]: "length (malloc n) = n"
  by (simp add: malloc_def)

subsection \<open>Failed reads\<close>

text \<open>
  C4. A failed read should end the scan with an error, count nothing and stop the read loop.
  The loops test the value of \<^verbatim>\<open>read\<close> against 0 only. On a pipe whose first read fails,
  \<open>count_bytes\<close> returns normally with the byte count \<open>2^64 - 1\<close>; when data follows the
  failure the loop goes on reading, and the \<open>-1\<close> has been added to the count: two bytes
  are reported as one, by \<open>count_bytes\<close> and by \<open>count_all\<close>.
\<close>

theorem C4_failed_read_is_counted:
  "count_bytes c_locale lc_info0 (pipe [RdErr]) =
     Inr (lc_info0\<lparr>num_bytes := - 1\<rparr>, (pipe [])\<lparr>closes := 1\<rparr>)
   \<and> count_bytes c_locale lc_info0 (pipe [RdErr, Rd [97, 98]]) =
     Inr (lc_info0\<lparr>num_bytes := 1\<rparr>, (pipe [])\<lparr>closes := 1\<rparr>)
   \<and> count_all c_locale lc_info0 (pipe [RdErr, Rd [97, 98]]) =
     Inr (lc_info0\<lparr>num_bytes := 1, num_words := 1\<rparr>, pipe [])"
  apply (simp add: count_bytes_def c_locale_def pipe_def close_def lc_info0_def count_all_def Let_def)
  apply (simp add: all_buf.simps all_step_def char_val_def is_ascii_def is_print_def is_space_def
      note_class_def)
  done

subsection \<open>The sentinel\<close>

text \<open>
  C5. In long mode the sentinel should be stored inside the \<open>MAXSIZE\<close>-byte buffer for every
  read of \<open>1 \<le> n \<le> MAXSIZE\<close> bytes. It is stored at index \<open>n\<close>, and the buffer has the
  indices \<open>0 .. MAXSIZE - 1\<close>: a full read in long mode stores one byte past the end. A
  regular file of eight full blocks of newlines gets there: the seventh block sets
  \<open>expect_long\<close>, the eighth is a full read in long mode.
\<close>

theorem C5_sentinel_past_the_buffer:
  "count_lines_and_bytes c_locale lc_info0
     (regular 521640
        [Rd (replicate 65205 10), Rd (replicate 65205 10), Rd (replicate 65205 10),
         Rd (replicate 65205 10), Rd (replicate 65205 10), Rd (replicate 65205 10),
         Rd (replicate 65205 10), Rd (replicate 65205 10)]) = Inl (Undefined_access 65205)"
  by (simp add: count_lines_and_bytes_def c_locale_def regular_def Let_def clb_body_short
      clb_body_overrun count_list_replicate MAXSIZE_def)

text \<open>
  C8. The promotion to long mode should change the speed only. On a pipe that delivers six
  newlines, then one byte, then a full block, the scan with the promotion stores past the
  buffer, while the same scan without it returns 6 lines and 65212 bytes.
\<close>

theorem C8_promotion_changes_the_outcome:
  "count_lines_and_bytes c_locale lc_info0
     (pipe [Rd (replicate 6 10), Rd [97], Rd (replicate 65205 97)]) = Inl (Undefined_access 65205)
   \<and> count_lines_bytewise c_locale lc_info0
     (pipe [Rd (replicate 6 10), Rd [97], Rd (replicate 65205 97)]) =
       Inr (lc_info0\<lparr>num_lines := 6, num_bytes := 65212\<rparr>, (pipe [])\<lparr>closes := 1\<rparr>)"
  by (simp add: count_lines_and_bytes_def count_lines_bytewise_def c_locale_def pipe_def Let_def
      clb_body_short clb_body_overrun count_list_replicate MAXSIZE_def close_def lc_info0_def)

subsection \<open>Who closes the descriptor\<close>

text \<open>
  C9. The scanner should never close the descriptor, and the driver should close it exactly
  once. \<open>count_bytes\<close> closes it, and so do \<open>count_lines_and_bytes\<close> and \<open>count_words\<close>;
  the driver closes it again. For one regular file with the byte flag alone the descriptor
  ends up closed twice; \<open>count_all\<close>, with all three flags, leaves it to the driver.
\<close>

theorem C9_descriptor_closed_twice:
  "map_sum id (closes \<circ> snd)
     (run_file c_locale ''f'' (regular 3 [Rd [97, 98, 10]])
        (lc_info0, \<lparr>opt_bytes = True, opt_lines = False, opt_words = False\<rparr>, [])) = Inr 2
   \<and> count_bytes c_locale lc_info0 (regular 3 [Rd [97, 98, 10]]) =
       Inr (lc_info0\<lparr>num_bytes := 3\<rparr>, (regular 3 [Rd [97, 98, 10]])\<lparr>closes := 1\<rparr>)
   \<and> map_sum id (closes \<circ> snd)
     (run_file c_locale ''f'' (regular 3 [Rd [97, 98, 10]])
        (lc_info0, \<lparr>opt_bytes = True, opt_lines = True, opt_words = True\<rparr>, [])) = Inr 1"
  by (simp add: run_file_def use_opts_def count_bytes_def count_all_def c_locale_def c_mbrtowc_def
      c_iswspace_def regular_def close_def lc_info0_def eval_scan word_sless_alt)

subsection \<open>The reported byte count\<close>

lemma count_lines_and_bytes_Inr:
  assumes "fstat fd = Some st" "count_lines_and_bytes L li fd = Inr (li', fd')"
  shows "num_bytes li' = (if S_ISREG st \<and> 0 <s st_size st then st_size st else ret_sum (reads fd))
       \<and> num_lines li' = of_nat (count_list (stream_of (reads fd)) 10)"
proof -
  from assms obtain s rs where
    r: "clb_reads (reads fd) \<lparr>buf = malloc MAXSIZE, expect_long = False, lines = 0, sum = 0\<rparr> = Inr (s, rs)"
    by (auto simp: count_lines_and_bytes_def Let_def split: if_splits sum.splits)
  from clb_reads_Inr [OF r] have "lines s = of_nat (count_list (stream_of (reads fd)) 10)"
    "sum s = ret_sum (reads fd)" by simp_all
  with assms r show ?thesis
    by (auto simp: count_lines_and_bytes_def Let_def split: if_splits dest: positive_size_nonzero)
qed

lemma count_lines_and_bytes_total:
  assumes "fstat fd = Some st" "malloc_ok L"
    "\<forall>r \<in> set (reads fd). r \<noteq> RdErr \<and> length (data r) < MAXSIZE"
  shows "\<exists>res. count_lines_and_bytes L li fd = Inr res"
proof -
  from clb_reads_total [of "reads fd" "\<lparr>buf = malloc MAXSIZE, expect_long = False, lines = 0, sum = 0\<rparr>"] assms(3)
  obtain res where "clb_reads (reads fd) \<lparr>buf = malloc MAXSIZE, expect_long = False, lines = 0, sum = 0\<rparr> = Inr res"
    by auto
  with assms show ?thesis
    by (cases res) (simp add: count_lines_and_bytes_def Let_def)
qed

lemma use_opts_bytes:
  assumes "opt_bytes lc" "use_opts L li lc fd = Inr (li', lc', fd', out')"
  shows "\<exists>l. num_bytes li' = num_bytes l \<and>
      (if opt_words lc then count_all L li fd
       else if opt_lines lc then count_lines_and_bytes L li fd
       else count_bytes L li fd) = Inr (l, fd')"
  using assms
  by (cases "opt_words lc"; cases "opt_lines lc")
     (auto simp: use_opts_def Let_def split: sum.splits)

text \<open>
  With the byte flag set, every byte count that \<open>use_opts\<close> returns is the declared size of
  a regular file of positive size, and the number of bytes delivered by a source that is not
  a regular file when no read fails. The modes that do not run \<open>count_lines_and_bytes\<close>
  always return when \<^verbatim>\<open>fstat\<close> and \<^verbatim>\<open>malloc\<close> succeed.
\<close>

lemma use_opts_byte_count:
  assumes "fstat fd = Some st" and "opt_bytes lc"
  shows
   "(S_ISREG st \<and> 0 <s st_size st \<longrightarrow>
       (\<forall>li' lc' fd' txt. use_opts L li lc fd = Inr (li', lc', fd', txt) \<longrightarrow> num_bytes li' = st_size st)
     \<and> (\<not> opt_lines lc \<and> \<not> opt_words lc \<longrightarrow>
          (\<exists>li' txt. use_opts L li lc fd = Inr (li', lc, close fd, txt) \<and> num_bytes li' = st_size st)))
  \<and> (\<not> S_ISREG st \<and> RdErr \<notin> set (reads fd) \<longrightarrow>
       (\<forall>li' lc' fd' txt. use_opts L li lc fd = Inr (li', lc', fd', txt) \<longrightarrow>
          num_bytes li' = of_nat (length (stream_of (reads fd)))))
  \<and> (malloc_ok L \<and> (opt_words lc \<or> \<not> opt_lines lc) \<longrightarrow> (\<exists>res. use_opts L li lc fd = Inr res))"
proof (intro conjI impI allI)
  fix li' lc' fd' out'
  assume reg: "S_ISREG st \<and> 0 <s st_size st" and u: "use_opts L li lc fd = Inr (li', lc', fd', out')"
  from use_opts_bytes [OF assms(2) u] obtain l where
    l: "num_bytes li' = num_bytes l" and
    sc: "(if opt_words lc then count_all L li fd
       else if opt_lines lc then count_lines_and_bytes L li fd
       else count_bytes L li fd) = Inr (l, fd')" by blast
  have m: "opt_words lc \<Longrightarrow> malloc_ok L"
    using sc assms(1) by (auto simp: count_all_def Let_def split: if_splits)
  show "num_bytes li' = st_size st"
    using sc l reg count_all_bytes [OF assms(1), of L li] count_lines_and_bytes_Inr [OF assms(1), of L li l fd']
      count_bytes_regular [OF assms(1), of L li] m
    by (auto split: if_splits)
next
  assume "S_ISREG st \<and> 0 <s st_size st" "\<not> opt_lines lc \<and> \<not> opt_words lc"
  then show "\<exists>li' txt. use_opts L li lc fd = Inr (li', lc, close fd, txt) \<and> num_bytes li' = st_size st"
    using assms count_bytes_regular [OF assms(1), of L li]
    by (simp add: use_opts_def)
next
  fix li' lc' fd' out'
  assume nreg: "\<not> S_ISREG st \<and> RdErr \<notin> set (reads fd)" and u: "use_opts L li lc fd = Inr (li', lc', fd', out')"
  from use_opts_bytes [OF assms(2) u] obtain l where
    l: "num_bytes li' = num_bytes l" and
    sc: "(if opt_words lc then count_all L li fd
       else if opt_lines lc then count_lines_and_bytes L li fd
       else count_bytes L li fd) = Inr (l, fd')" by blast
  have m: "opt_words lc \<or> \<not> opt_lines lc \<Longrightarrow> malloc_ok L"
    using sc assms(1) nreg by (auto simp: count_all_def count_bytes_def Let_def split: if_splits)
  show "num_bytes li' = of_nat (length (stream_of (reads fd)))"
    using sc l nreg count_all_bytes [OF assms(1), of L li] count_lines_and_bytes_Inr [OF assms(1), of L li l fd']
      count_bytes_drain [OF assms(1), of L li] m ret_sum_stream [of "reads fd"]
    by (auto split: if_splits)
next
  assume a: "malloc_ok L \<and> (opt_words lc \<or> \<not> opt_lines lc)"
  show "\<exists>res. use_opts L li lc fd = Inr res"
  proof (cases "opt_words lc")
    case True
    with a assms count_all_bytes [OF assms(1), of L li] show ?thesis
      by (cases "opt_lines lc") (auto simp: use_opts_def)
  next
    case False
    with a have nl: "\<not> opt_lines lc" by simp
    show ?thesis
    proof (cases "S_ISREG st \<and> 0 <s st_size st")
      case True
      with False nl assms count_bytes_regular [OF assms(1), of L li] show ?thesis
        by (simp add: use_opts_def)
    next
      case f: False
      with False nl a assms count_bytes_drain [OF assms(1) f, of L li] show ?thesis
        by (simp add: use_opts_def)
    qed
  qed
qed

subsection \<open>The driver\<close>

lemma main_loop_append:
  "main_loop L fs (xs @ ys) st =
     (case main_loop L fs xs st of Inl e \<Rightarrow> Inl e | Inr st' \<Rightarrow> main_loop L fs ys st')"
  by (induction xs arbitrary: st) (auto split: option.splits sum.splits)

lemma run_file_out:
  "run_file L arg fd (li, lc, out0) = Inr ((li', lc', out), fd') \<Longrightarrow> \<exists>t. out = out0 @ t @ '' '' @ arg @ [CHR 10]"
  by (auto simp: run_file_def split: sum.splits)

lemma main_loop_lines:
  "main_loop L fs args (li, lc, out0) = Inr (li', lc', out) \<Longrightarrow>
   \<exists>segs. out = out0 @ concat segs \<and> list_all2 (\<lambda>a seg. \<exists>t. seg = t @ '' '' @ a @ [CHR 10]) args segs"
proof (induction args arbitrary: li lc out0)
  case Nil
  then show ?case by simp
next
  case (Cons a args)
  then obtain fd li1 lc1 out1 fd1 where
    r: "run_file L a fd (li, lc, out0) = Inr ((li1, lc1, out1), fd1)" and
    rest: "main_loop L fs args (li1, lc1, out1) = Inr (li', lc', out)"
    by (auto split: if_splits option.splits sum.splits)
  from run_file_out [OF r] obtain t where t: "out1 = out0 @ t @ '' '' @ a @ [CHR 10]" by blast
  from Cons.IH [OF rest] obtain segs where
    s: "out = out1 @ concat segs" "list_all2 (\<lambda>a seg. \<exists>t. seg = t @ '' '' @ a @ [CHR 10]) args segs"
    by blast
  show ?case
    by (rule exI [of _ "(t @ '' '' @ a @ [CHR 10]) # segs"]) (use t s in auto)
qed

text \<open>
  C10. When the arguments before a bare \<^verbatim>\<open>-\<close>, or before a file that does not open, have
  been processed, \<open>main\<close> exits with \<^verbatim>\<open>EXIT_FAILURE\<close> and \<^verbatim>\<open>stdout\<close> holds exactly what
  those arguments produced: one line per argument, ending in a blank, the name and a
  newline, and no total line.
\<close>

theorem C10_earlier_files_are_printed:
  assumes "main_loop L fs pre (lc_info0, lc, []) = Inr (li', lc', out)"
    and "bad = ''-'' \<or> fs bad = None"
  shows "main L fs lc (pre @ bad # rest) =
           (Some (if bad = ''-'' then Exit_invalid_prefix else Exit_open bad), out)
       \<and> exit_status (fst (main L fs lc (pre @ bad # rest))) = Some 1
       \<and> (\<exists>segs. out = concat segs \<and>
            list_all2 (\<lambda>a seg. \<exists>t. seg = t @ '' '' @ a @ [CHR 10]) pre segs)"
proof -
  have "main_loop L fs (pre @ bad # rest) (lc_info0, lc, []) =
        Inl (if bad = ''-'' then Exit_invalid_prefix else Exit_open bad, out)"
    using assms by (auto simp: main_loop_append)
  then have m: "main L fs lc (pre @ bad # rest) =
           (Some (if bad = ''-'' then Exit_invalid_prefix else Exit_open bad), out)"
    by (simp add: main_def)
  from main_loop_lines [OF assms(1)] m show ?thesis by auto
qed


theorem C10_earlier_files_are_printed_witness:
  "main_loop c_locale fs1 [''f1'']
     (lc_info0, \<lparr>opt_bytes = False, opt_lines = True, opt_words = True\<rparr>, []) =
     Inr (\<lparr>num_bytes = 4, num_lines = 1, num_words = 1,
           lines_total = 1, words_total = 1, bytes_total = 0\<rparr>,
          \<lparr>opt_bytes = False, opt_lines = True, opt_words = True\<rparr>,
          ''           1           1 f1'' @ [CHR 10])
   \<and> main c_locale fs1 \<lparr>opt_bytes = False, opt_lines = True, opt_words = True\<rparr> [''f1'', ''-''] =
       (Some Exit_invalid_prefix, ''           1           1 f1'' @ [CHR 10])
   \<and> main c_locale fs1 \<lparr>opt_bytes = False, opt_lines = True, opt_words = True\<rparr>
        [''f1'', ''f2'', ''f1''] =
       (Some (Exit_open ''f2''), ''           1           1 f1'' @ [CHR 10])"
proof -
  let ?lc = "\<lparr>opt_bytes = False, opt_lines = True, opt_words = True\<rparr>"
  have run: "main_loop c_locale fs1 [''f1''] (lc_info0, ?lc, []) =
     Inr (\<lparr>num_bytes = 4, num_lines = 1, num_words = 1,
           lines_total = 1, words_total = 1, bytes_total = 0\<rparr>, ?lc,
          ''           1           1 f1'' @ [CHR 10])"
    by (simp add: fs1_def run_file_def use_opts_def count_all_def pipe_def lc_info0_def eval_scan
        c_locale_def c_mbrtowc_def c_iswspace_def close_def fmt12_def digits_small replicate_num)
  have a: "''-'' = ''-'' \<or> fs1 ''-'' = None" by simp
  have b: "''f2'' = ''-'' \<or> fs1 ''f2'' = None" by (simp add: fs1_def)
  from C10_earlier_files_are_printed [OF run a, of "[]"]
    C10_earlier_files_are_printed [OF run b, of "[''f1'']"] run
  show ?thesis by simp
qed

subsection \<open>The line count\<close>

lemma unat_newline: "unat (b :: byte) = 10 \<longleftrightarrow> b = 10"
proof -
  have "unat (10 :: byte) = 10" by simp
  then show ?thesis
    by (metis word_unat_eq_iff)
qed

lemma not_print_newline: "\<not> is_print 10"
  by (simp add: is_print_def)

lemma bump_lines_lines [simp]: "num_lines (info (bump_lines s)) = num_lines (info s) + 1"
  by (simp add: bump_lines_def)

lemma all_step_ascii:
  "is_ascii (char_val (hd bs)) \<and> is_print (char_val (hd bs)) \<Longrightarrow>
   all_step L bs s =
     (1, if is_space (char_val (hd bs)) then s\<lparr>have_space := True\<rparr>
         else if have_space s
         then s\<lparr>have_space := False, info := (info s)\<lparr>num_words := num_words (info s) + 1\<rparr>\<rparr>
         else s)"
  using not_print_newline by (auto simp: all_step_def Let_def)

lemma all_step_mb:
  "\<not> (is_ascii (char_val (hd bs)) \<and> is_print (char_val (hd bs))) \<Longrightarrow>
   mbrtowc L (mst s) bs = (r, m) \<Longrightarrow>
   all_step L bs s =
     (wlen_after r, note_class (iswspace L (pwc_after r (hd bs)))
        (if pwc_after r (hd bs) = 10 then bump_lines (s\<lparr>mst := m\<rparr>) else s\<lparr>mst := m\<rparr>))"
  by (auto simp: all_step_def Let_def)

subsection \<open>The word count\<close>

lemma sm_words_in_word: "sm_words IN_WORD cs = sm_words IN_SPACE (dropWhile Not cs)"
  by (induction cs) auto

lemma sm_words_in_space: "sm_words IN_SPACE cs = sm_words IN_SPACE (dropWhile id cs)"
  by (induction cs) auto

lemma word_runs_sm: "length (word_runs cs) = sm_words IN_SPACE cs"
proof (induction cs rule: word_runs.induct)
  case (1 cs)
  show ?case
  proof (cases "dropWhile id cs")
    case Nil
    have "word_runs cs = []"
      by (subst word_runs.simps) (simp only: Nil list.case)
    moreover have "sm_words IN_SPACE cs = 0"
      using sm_words_in_space [of cs] by (simp only: Nil sm_words.simps)
    ultimately show ?thesis by simp
  next
    case (Cons c w)
    then have c: "\<not> c" using hd_dropWhile [of id cs] by auto
    have wr: "word_runs cs = takeWhile Not (c # w) # word_runs (dropWhile Not (c # w))"
      by (subst word_runs.simps) (simp only: Cons list.case)
    have "sm_words IN_SPACE cs = sm_words IN_SPACE (c # w)"
      using sm_words_in_space [of cs] by (simp only: Cons)
    also have "\<dots> = 1 + sm_words IN_SPACE (dropWhile Not (c # w))"
      using c sm_words_in_word [of w] by simp
    finally show ?thesis
      using "1.IH" [OF Cons] by (simp add: wr)
  qed
qed

lemma sm_words_append: "sm_words q (xs @ ys) = sm_words q xs + sm_words (sm_end q xs) ys"
  by (induction xs arbitrary: q) auto

lemma note_class_wsame: "wsame s t \<Longrightarrow> wsame (note_class c s) (note_class c t)"
  by (simp add: wsame_def note_class_def)

lemma words_step_ascii:
  "is_ascii (char_val (hd bs)) \<and> is_print (char_val (hd bs)) \<Longrightarrow>
   words_step L bs s = (1, note_class (is_space (char_val (hd bs))) s)"
  by (simp add: words_step_def Let_def)

lemma words_step_mb:
  "\<not> (is_ascii (char_val (hd bs)) \<and> is_print (char_val (hd bs))) \<Longrightarrow>
   mbrtowc L (mst s) bs = (r, m) \<Longrightarrow>
   words_step L bs s =
     (wlen_after r, note_class (iswspace L (pwc_after r (hd bs))) (s\<lparr>mst := m\<rparr>))"
  by (auto simp: words_step_def Let_def)

lemma all_words_step:
  assumes "wsame s t"
  shows "fst (all_step L bs s) = fst (words_step L bs t) \<and>
         wsame (snd (all_step L bs s)) (snd (words_step L bs t))"
proof (cases "is_ascii (char_val (hd bs)) \<and> is_print (char_val (hd bs))")
  case True
  with assms show ?thesis
    by (simp add: all_step_ascii words_step_ascii wsame_def note_class_def)
next
  case False
  obtain r m where d: "mbrtowc L (mst s) bs = (r, m)" by force
  have "wsame (if pwc_after r (hd bs) = 10 then bump_lines (s\<lparr>mst := m\<rparr>) else s\<lparr>mst := m\<rparr>) (t\<lparr>mst := m\<rparr>)"
    using assms by (simp add: wsame_def)
  moreover have "mbrtowc L (mst t) bs = (r, m)"
    using d assms by (simp add: wsame_def)
  ultimately show ?thesis
    by (simp add: all_step_mb [OF False d] words_step_mb [OF False] note_class_wsame)
qed

lemma all_words_buf: "wsame s t \<Longrightarrow> wsame (all_buf L bs s) (words_buf L bs t)"
proof (induction L bs s arbitrary: t rule: all_buf.induct)
  case (1 L bs s)
  show ?case
  proof (cases "bs = []")
    case True
    with "1.prems" show ?thesis by (simp add: all_buf_Nil words_buf_Nil)
  next
    case False
    note st = all_words_step [OF "1.prems", of L bs]
    from "1.IH" [OF False conjunct2 [OF st]] st False show ?thesis
      by (subst all_buf.simps, subst words_buf.simps) simp
  qed
qed

lemma all_words_reads: "wsame s t \<Longrightarrow> wsame (fst (all_reads L rs s)) (fst (words_reads L rs t))"
proof (induction rs arbitrary: s t)
  case Nil
  then show ?case by simp
next
  case (Cons r rs)
  show ?case
  proof (cases "ret r = 0")
    case True
    with Cons.prems show ?thesis by simp
  next
    case False
    have "wsame (s\<lparr>sum_bytes := sum_bytes s + word_of_int (ret r)\<rparr>) t"
      using Cons.prems by (simp add: wsame_def)
    from Cons.IH [OF all_words_buf [OF this]] False show ?thesis by simp
  qed
qed

subsection \<open>Read boundaries\<close>

lemma all_step_sum:
  "all_step L bs (s\<lparr>sum_bytes := v\<rparr>) =
     (fst (all_step L bs s), (snd (all_step L bs s))\<lparr>sum_bytes := v\<rparr>)"
proof (cases "is_ascii (char_val (hd bs)) \<and> is_print (char_val (hd bs))")
  case True
  then show ?thesis by (simp add: all_step_ascii)
next
  case False
  obtain r m where d: "mbrtowc L (mst s) bs = (r, m)" by force
  then have d': "mbrtowc L (mst (s\<lparr>sum_bytes := v\<rparr>)) bs = (r, m)" by simp
  show ?thesis
    by (simp add: all_step_mb [OF False d] all_step_mb [OF False d'] note_class_def bump_lines_def)
qed

lemma all_buf_sum: "all_buf L bs (s\<lparr>sum_bytes := v\<rparr>) = (all_buf L bs s)\<lparr>sum_bytes := v\<rparr>"
proof (induction L bs s rule: all_buf.induct)
  case (1 L bs s)
  show ?case
  proof (cases "bs = []")
    case True
    then show ?thesis by (simp add: all_buf_Nil)
  next
    case False
    with "1.IH" [OF False] show ?thesis
      by (subst (1 2) all_buf.simps) (simp add: all_step_sum)
  qed
qed

lemma all_reads_single:
  "bs \<noteq> [] \<Longrightarrow>
   all_reads L [Rd bs] s = (all_buf L bs (s\<lparr>sum_bytes := sum_bytes s + of_nat (length bs)\<rparr>), [])"
  by simp

lemma words_reads_single: "bs \<noteq> [] \<Longrightarrow> words_reads L [Rd bs] s = (words_buf L bs s, [])"
  by simp

lemma bytes_reads_single: "bs \<noteq> [] \<Longrightarrow> bytes_reads [Rd bs] nb = (nb + of_nat (length bs), [])"
  by simp

lemma bytes_reads_chunks:
  "[] \<notin> set cs \<Longrightarrow> bytes_reads (map Rd cs) nb = bytes_reads [Rd (concat cs)] nb"
proof (induction cs arbitrary: nb)
  case Nil
  then show ?case by simp
next
  case (Cons c cs)
  then have c: "c \<noteq> []" by auto
  show ?case
  proof (cases cs)
    case Nil
    then show ?thesis by simp
  next
    case (Cons c' cs')
    let ?X = "concat cs"
    have X: "?X \<noteq> []" using Cons.prems Cons by auto
    have "bytes_reads (map Rd (c # cs)) nb = bytes_reads [Rd ?X] (nb + of_nat (length c))"
      using c Cons.IH [of "nb + of_nat (length c)"] Cons.prems by simp
    also have "\<dots> = (nb + of_nat (length c) + of_nat (length ?X), [])"
      by (rule bytes_reads_single [OF X])
    also have "\<dots> = bytes_reads [Rd (concat (c # cs))] nb"
      using bytes_reads_single [of "c @ ?X" nb] c by (simp add: add.assoc)
    finally show ?thesis .
  qed
qed

subsection \<open>The loops in the C locale\<close>

text \<open>
  The bytes that take the branch \<^verbatim>\<open>is_ascii(*p) && is_print(*p)\<close> are \<open>0x20 .. 0x7E\<close>. In
  the \<^verbatim>\<open>"C"\<close> locale both branches advance by one byte and classify the byte by
  \<open>c_isspace\<close>, and \<open>count_all\<close> counts a line exactly at a byte \<open>0x0A\<close>.
\<close>

lemma is_ascii_iff: "is_ascii x \<longleftrightarrow> 0 \<le> x \<and> x < 128"
proof -
  have m: "(127 :: int) = mask 7"
    by (simp add: mask_eq_exp_minus_1)
  have "x AND NOT (mask 7) = 0 \<longleftrightarrow> take_bit 7 x = x"
    by (auto simp add: bit_eq_iff bit_and_iff bit_not_iff bit_mask_iff bit_take_bit_iff)
  then show ?thesis
    unfolding is_ascii_def m by (simp add: take_bit_int_eq_self_iff)
qed

lemma is_print_iff: "0 \<le> x \<Longrightarrow> x < 128 \<Longrightarrow> is_print x \<longleftrightarrow> 32 \<le> x \<and> x < 127"
proof -
  assume a: "0 \<le> x" "x < 128"
  have u: "uint ((word_of_int x :: 32 word) - 32) = (x - 32) mod 4294967296"
    using a by (simp add: uint_word_ariths uint_word_of_int mod_diff_left_eq)
  show ?thesis
  proof (cases "32 \<le> x")
    case True
    then have "(x - 32) mod 4294967296 = x - 32"
      using a by (intro mod_pos_pos_trivial) simp_all
    with True show ?thesis
      by (simp add: is_print_def word_less_def u)
  next
    case False
    have "(x - 32) mod 4294967296 = (x - 32 + 4294967296) mod 4294967296"
      by (metis mod_add_self2)
    also have "\<dots> = x - 32 + 4294967296"
      using a False by (intro mod_pos_pos_trivial) simp_all
    finally show ?thesis
      using a False by (simp add: is_print_def word_less_def u)
  qed
qed

lemma sint_byte: "sint (b :: byte) = (if uint b < 128 then uint b else uint b - 256)"
proof -
  have u: "0 \<le> uint b" "uint b < 256"
    using uint_lt2p [of b] by simp_all
  have s: "sint b = (uint b + 128) mod 256 - 128"
    by (simp add: sint_uint signed_take_bit_eq_take_bit_shift take_bit_eq_mod)
  show ?thesis
  proof (cases "uint b < 128")
    case True
    then have "(uint b + 128) mod 256 = uint b + 128"
      using u by (intro mod_pos_pos_trivial) simp_all
    with True show ?thesis by (simp add: s)
  next
    case False
    have e: "uint b + 128 = (uint b - 128) + 256"
      by simp
    have "(uint b + 128) mod 256 = (uint b - 128) mod 256"
      unfolding e by (rule mod_add_self2)
    also have "\<dots> = uint b - 128"
      using u False by (intro mod_pos_pos_trivial) simp_all
    finally show ?thesis using False by (simp add: s)
  qed
qed

lemma fast_path_iff:
  "is_ascii (char_val b) \<and> is_print (char_val b) \<longleftrightarrow> 32 \<le> b \<and> b \<le> 126"
proof -
  have u: "0 \<le> uint b" "uint b < 256"
    using uint_lt2p [of b] by simp_all
  have "is_ascii (char_val b) \<and> is_print (char_val b) \<longleftrightarrow> 32 \<le> char_val b \<and> char_val b < 127"
    using is_print_iff [of "char_val b"] by (auto simp: is_ascii_iff)
  also have "\<dots> \<longleftrightarrow> 32 \<le> uint b \<and> uint b \<le> 126"
    unfolding char_val_def sint_byte using u by auto
  also have "\<dots> \<longleftrightarrow> 32 \<le> b \<and> b \<le> 126"
    by (simp add: word_le_def)
  finally show ?thesis .
qed

lemma byte_eq_32: "(b :: byte) = 32 \<longleftrightarrow> unat b = 32"
proof -
  have "unat (32 :: byte) = 32" by simp
  then show ?thesis by (metis word_unat_eq_iff)
qed

lemma fast_path_space:
  assumes "is_ascii (char_val b) \<and> is_print (char_val b)"
  shows "is_space (char_val b) \<longleftrightarrow> b = 32"
proof -
  from assms have r: "32 \<le> uint b \<and> uint b \<le> 126"
    by (simp add: fast_path_iff word_le_def)
  then have c: "char_val b = uint b"
    by (simp add: char_val_def sint_byte)
  have "b = 32 \<longleftrightarrow> uint b = 32"
  proof -
    have "uint (32 :: byte) = 32" by simp
    then show ?thesis by (metis word_uint_eq_iff)
  qed
  then show ?thesis
    using r by (auto simp: is_space_def c)
qed


lemma c_iswspace_unat: "c_iswspace (unat (b :: byte)) = c_isspace b"
  by (simp add: c_iswspace_def c_isspace_def byte_eq_32 word_le_nat_alt)

lemma c_locale_sel [simp]:
  "mbrtowc c_locale = c_mbrtowc" "iswspace c_locale = c_iswspace" "malloc_ok c_locale"
  "mbstate0 c_locale = ()"
  by (simp_all add: c_locale_def)

lemma locals_unit: "s\<lparr>mst := m\<rparr> = (s :: unit locals)"
  by (cases s) simp

lemma c_mbrtowc_Cons:
  "c_mbrtowc m (b # bs) =
     (if b = 0 then (MbChar 0 0, ()) else if b < 128 then (MbChar 1 (unat b), ()) else (MbInvalid, ()))"
  by (simp add: c_mbrtowc_def)

lemma fast_path_class:
  assumes "is_ascii (char_val b) \<and> is_print (char_val b)"
  shows "is_space (char_val b) = c_isspace b" "b \<noteq> 10"
proof -
  from assms have "32 \<le> b" by (simp add: fast_path_iff)
  then have n: "\<not> (9 \<le> b \<and> b \<le> 13)" "b \<noteq> 10" by (auto simp: word_le_nat_alt)
  show "is_space (char_val b) = c_isspace b"
    using fast_path_space [OF assms] n by (auto simp: c_isspace_def)
  show "b \<noteq> 10" by (rule n)
qed

lemma slow_path_class:
  assumes "mbrtowc c_locale m (b # bs) = (r, m')"
  shows "wlen_after r = 1" "iswspace c_locale (pwc_after r b) = c_isspace b"
    "pwc_after r b = 10 \<longleftrightarrow> b = 10"
proof -
  have z: "\<not> c_isspace 0" "\<not> c_iswspace 0" by (simp_all add: c_isspace_def c_iswspace_def)
  have r: "r = (if b = 0 then MbChar 0 0 else if b < 128 then MbChar 1 (unat b) else MbInvalid)"
    using assms by (simp add: c_mbrtowc_Cons split: if_splits)
  show "wlen_after r = 1" by (simp add: r)
  show "iswspace c_locale (pwc_after r b) = c_isspace b"
    using z by (auto simp: r c_iswspace_unat)
  show "pwc_after r b = 10 \<longleftrightarrow> b = 10"
    by (auto simp: r unat_newline)
qed

lemma all_step_c_locale:
  "all_step c_locale (b # bs) s =
     (1, note_class (c_isspace b) (if b = 10 then bump_lines s else s))"
proof (cases "is_ascii (char_val b) \<and> is_print (char_val b)")
  case True
  then have T: "is_ascii (char_val (hd (b # bs))) \<and> is_print (char_val (hd (b # bs)))" by simp
  show ?thesis
    using fast_path_class [OF True] by (simp add: all_step_ascii [OF T] note_class_def)
next
  case False
  then have F: "\<not> (is_ascii (char_val (hd (b # bs))) \<and> is_print (char_val (hd (b # bs))))" by simp
  obtain r m where d: "mbrtowc c_locale (mst s) (b # bs) = (r, m)" by (metis surj_pair)
  show ?thesis
    using slow_path_class [OF d] by (simp add: all_step_mb [OF F d] locals_unit)
qed

lemma words_step_c_locale:
  "words_step c_locale (b # bs) s = (1, note_class (c_isspace b) s)"
proof (cases "is_ascii (char_val b) \<and> is_print (char_val b)")
  case True
  then have T: "is_ascii (char_val (hd (b # bs))) \<and> is_print (char_val (hd (b # bs)))" by simp
  show ?thesis
    using fast_path_class [OF True] by (simp add: words_step_ascii [OF T])
next
  case False
  then have F: "\<not> (is_ascii (char_val (hd (b # bs))) \<and> is_print (char_val (hd (b # bs))))" by simp
  obtain r m where d: "mbrtowc c_locale (mst s) (b # bs) = (r, m)" by (metis surj_pair)
  show ?thesis
    using slow_path_class [OF d] by (simp add: words_step_mb [OF F d] locals_unit)
qed

lemma all_buf_c_locale:
  "all_buf c_locale (b # bs) s =
     all_buf c_locale bs (note_class (c_isspace b) (if b = 10 then bump_lines s else s))"
  by (subst all_buf_Cons) (simp add: all_step_c_locale)

lemma words_buf_c_locale:
  "words_buf c_locale (b # bs) s = words_buf c_locale bs (note_class (c_isspace b) s)"
  by (subst words_buf_Cons) (simp add: words_step_c_locale)

lemma all_buf_c_append:
  "all_buf c_locale (xs @ ys) s = all_buf c_locale ys (all_buf c_locale xs s)"
  by (induction xs arbitrary: s) (simp_all add: all_buf_Nil all_buf_c_locale)

lemma words_buf_c_append:
  "words_buf c_locale (xs @ ys) s = words_buf c_locale ys (words_buf c_locale xs s)"
  by (induction xs arbitrary: s) (simp_all add: words_buf_Nil words_buf_c_locale)

lemma all_buf_c_lines:
  "num_lines (info (all_buf c_locale bs s)) = num_lines (info s) + of_nat (count_list bs 10)"
  by (induction bs arbitrary: s) (simp_all add: all_buf_Nil all_buf_c_locale add.assoc)

lemma all_reads_c_lines:
  "num_lines (info (fst (all_reads c_locale rs s))) =
     num_lines (info s) + of_nat (count_list (stream_of rs) 10)"
  by (induction rs arbitrary: s) (simp_all add: all_buf_c_lines add.assoc)

lemma count_all_c_lines:
  assumes "fstat fd = Some st"
  shows "\<exists>li' fd'. count_all c_locale li fd = Inr (li', fd') \<and>
     num_lines li' = of_nat (count_list (stream_of (reads fd)) 10)"
proof -
  let ?li1 = "li\<lparr>num_bytes := 0, num_lines := 0, num_words := 0\<rparr>"
  let ?li2 = "if S_ISREG st \<and> 0 <s st_size st then ?li1\<lparr>num_bytes := st_size st\<rparr> else ?li1"
  let ?S0 = "\<lparr>mst = mbstate0 c_locale, have_space = True, sum_bytes = 0, info = ?li2\<rparr>"
  obtain s rs where r: "all_reads c_locale (reads fd) ?S0 = (s, rs)"
    by force
  from all_reads_c_lines [of "reads fd" ?S0] r
  have "num_lines (info s) = of_nat (count_list (stream_of (reads fd)) 10)"
    by simp
  with assms r show ?thesis
    by (auto simp: count_all_def Let_def)
qed

lemma words_buf_c_sm:
  "seg_of (have_space (words_buf c_locale bs s)) = sm_end (seg_of (have_space s)) (map c_isspace bs) \<and>
   num_words (info (words_buf c_locale bs s)) =
     num_words (info s) + of_nat (sm_words (seg_of (have_space s)) (map c_isspace bs))"
proof (induction bs arbitrary: s)
  case Nil
  then show ?case by (simp add: words_buf_Nil)
next
  case (Cons b bs)
  have hs: "seg_of (have_space (note_class (c_isspace b) s)) = seg_of (c_isspace b)"
    by (simp add: note_class_def seg_of_def)
  have nw: "num_words (info (note_class (c_isspace b) s)) =
      num_words (info s) + of_nat (if \<not> c_isspace b \<and> have_space s then 1 else 0)"
    by (simp add: note_class_def)
  from Cons [of "note_class (c_isspace b) s"] hs nw show ?case
    by (auto simp: words_buf_c_locale seg_of_def add.assoc)
qed

lemma words_reads_c_sm:
  "num_words (info (fst (words_reads c_locale rs s))) =
     num_words (info s) + of_nat (sm_words (seg_of (have_space s)) (map c_isspace (stream_of rs)))"
proof (induction rs arbitrary: s)
  case Nil
  then show ?case by simp
next
  case (Cons r rs)
  show ?case
  proof (cases "ret r = 0")
    case True
    then show ?thesis by simp
  next
    case False
    note b = words_buf_c_sm [of "data r" s]
    from Cons [of "words_buf c_locale (data r) s"] b False show ?thesis
      by (simp add: sm_words_append add.assoc)
  qed
qed

lemma count_words_c_sm:
  "\<exists>li' fd'. count_words c_locale li fd = Inr (li', fd') \<and>
     num_words li' = of_nat (sm_words IN_SPACE (map c_isspace (stream_of (reads fd))))"
proof -
  let ?S0 = "\<lparr>mst = mbstate0 c_locale, have_space = True, sum_bytes = 0, info = li\<lparr>num_words := 0\<rparr>\<rparr>"
  obtain s rs where r: "words_reads c_locale (reads fd) ?S0 = (s, rs)" by force
  from words_reads_c_sm [of "reads fd" ?S0] r
  have "num_words (info s) = of_nat (sm_words IN_SPACE (map c_isspace (stream_of (reads fd))))"
    by (simp add: seg_of_def)
  with r show ?thesis by (simp add: count_words_def)
qed

lemma count_all_c_sm:
  assumes "fstat fd = Some st"
  shows "\<exists>li' fd'. count_all c_locale li fd = Inr (li', fd') \<and>
     num_words li' = of_nat (sm_words IN_SPACE (map c_isspace (stream_of (reads fd))))"
proof -
  let ?li1 = "li\<lparr>num_bytes := 0, num_lines := 0, num_words := 0\<rparr>"
  let ?li2 = "if S_ISREG st \<and> 0 <s st_size st then ?li1\<lparr>num_bytes := st_size st\<rparr> else ?li1"
  let ?S0 = "\<lparr>mst = mbstate0 c_locale, have_space = True, sum_bytes = 0, info = ?li2\<rparr>"
  let ?T0 = "\<lparr>mst = mbstate0 c_locale, have_space = True, sum_bytes = 0, info = li\<lparr>num_words := 0\<rparr>\<rparr>"
  obtain s rs where r: "all_reads c_locale (reads fd) ?S0 = (s, rs)" by force
  have "wsame ?S0 ?T0" by (simp add: wsame_def)
  from all_words_reads [OF this, of c_locale "reads fd"] r
  have "num_words (info s) = num_words (info (fst (words_reads c_locale (reads fd) ?T0)))"
    by (simp add: wsame_def)
  also have "\<dots> = of_nat (sm_words IN_SPACE (map c_isspace (stream_of (reads fd))))"
    using words_reads_c_sm [of "reads fd" ?T0] by (simp add: seg_of_def)
  finally show ?thesis
    using assms r by (auto simp: count_all_def Let_def)
qed

subsection \<open>The word count in the C locale\<close>

lemma sm_words_c_spaces: "list_all c_isspace ws \<Longrightarrow> sm_words q (map c_isspace ws) = 0"
  by (induction ws arbitrary: q) auto

lemma sm_words_trailing:
  "list_all c_isspace ws \<Longrightarrow>
   sm_words q (map c_isspace (bs @ ws)) = sm_words q (map c_isspace bs)"
  by (simp add: sm_words_append sm_words_c_spaces)

lemma use_opts_c_words:
  assumes "opt_words lc" "fstat fd = Some st"
  shows "\<exists>li' lc' fd' t. use_opts c_locale li lc fd = Inr (li', lc', fd', t) \<and>
     num_words li' = of_nat (sm_words IN_SPACE (map c_isspace (stream_of (reads fd))))"
proof -
  obtain la fa where a: "count_all c_locale li fd = Inr (la, fa)"
    "num_words la = of_nat (sm_words IN_SPACE (map c_isspace (stream_of (reads fd))))"
    using count_all_c_sm [OF assms(2), of li] by blast
  obtain lw fw where w: "count_words c_locale li fd = Inr (lw, fw)"
    "num_words lw = of_nat (sm_words IN_SPACE (map c_isspace (stream_of (reads fd))))"
    using count_words_c_sm [of li fd] by blast
  show ?thesis
    using assms(1) a w by (cases "opt_lines lc"; cases "opt_bytes lc") (simp_all add: use_opts_def)
qed

text \<open>
  C2. In the \<^verbatim>\<open>"C"\<close> locale every byte of the stream is one code point, and the whitespace
  code points are the bytes of \<open>c_isspace\<close>. For every source, \<open>count_words\<close> and
  \<open>count_all\<close> return, and so does \<open>use_opts\<close> in every mode with the word flag; the
  word count is the number of maximal runs of non-whitespace bytes of the stream
  (\<open>word_runs\<close>), which is the number of transitions from \<open>IN_SPACE\<close> to \<open>IN_WORD\<close> of the
  state machine started in \<open>IN_SPACE\<close> (\<open>sm_words\<close>). Whitespace added at the end of the
  stream leaves the word count as it is.
\<close>

theorem C2_word_count:
  "(\<exists>li' fd'. count_words c_locale li fd = Inr (li', fd') \<and>
       num_words li' = of_nat (length (word_runs (map c_isspace (stream_of (reads fd))))) \<and>
       num_words li' = of_nat (sm_words IN_SPACE (map c_isspace (stream_of (reads fd)))))
   \<and> (fstat fd \<noteq> None \<longrightarrow>
        (\<exists>li' fd'. count_all c_locale li fd = Inr (li', fd') \<and>
           num_words li' = of_nat (length (word_runs (map c_isspace (stream_of (reads fd))))) \<and>
           num_words li' = of_nat (sm_words IN_SPACE (map c_isspace (stream_of (reads fd))))))
   \<and> (opt_words lc \<and> fstat fd \<noteq> None \<longrightarrow>
        (\<exists>li' lc' fd' t. use_opts c_locale li lc fd = Inr (li', lc', fd', t) \<and>
           num_words li' = of_nat (length (word_runs (map c_isspace (stream_of (reads fd)))))))
   \<and> (list_all c_isspace ws \<and> stream_of (reads fd2) = stream_of (reads fd) @ ws \<longrightarrow>
        map_sum id (num_words \<circ> fst) (count_words c_locale li fd2) =
        map_sum id (num_words \<circ> fst) (count_words c_locale li fd)
        \<and> (fstat fd \<noteq> None \<and> fstat fd2 \<noteq> None \<longrightarrow>
             map_sum id (num_words \<circ> fst) (count_all c_locale li fd2) =
             map_sum id (num_words \<circ> fst) (count_all c_locale li fd)))"
proof (intro conjI impI)
  show "\<exists>li' fd'. count_words c_locale li fd = Inr (li', fd') \<and>
       num_words li' = of_nat (length (word_runs (map c_isspace (stream_of (reads fd))))) \<and>
       num_words li' = of_nat (sm_words IN_SPACE (map c_isspace (stream_of (reads fd))))"
    using count_words_c_sm [of li fd] by (simp add: word_runs_sm)
next
  assume "fstat fd \<noteq> None"
  then obtain st where "fstat fd = Some st" by auto
  from count_all_c_sm [OF this, of li]
  show "\<exists>li' fd'. count_all c_locale li fd = Inr (li', fd') \<and>
       num_words li' = of_nat (length (word_runs (map c_isspace (stream_of (reads fd))))) \<and>
       num_words li' = of_nat (sm_words IN_SPACE (map c_isspace (stream_of (reads fd))))"
    by (simp add: word_runs_sm)
next
  assume "opt_words lc \<and> fstat fd \<noteq> None"
  then obtain st where "opt_words lc" "fstat fd = Some st" by auto
  from use_opts_c_words [OF this, of li]
  show "\<exists>li' lc' fd' t. use_opts c_locale li lc fd = Inr (li', lc', fd', t) \<and>
           num_words li' = of_nat (length (word_runs (map c_isspace (stream_of (reads fd)))))"
    by (simp add: word_runs_sm)
next
  assume a: "list_all c_isspace ws \<and> stream_of (reads fd2) = stream_of (reads fd) @ ws"
  then have e: "sm_words IN_SPACE (map c_isspace (stream_of (reads fd2))) =
      sm_words IN_SPACE (map c_isspace (stream_of (reads fd)))"
    by (simp only: sm_words_trailing)
  from count_words_c_sm [of li fd] count_words_c_sm [of li fd2] e
  show "map_sum id (num_words \<circ> fst) (count_words c_locale li fd2) =
        map_sum id (num_words \<circ> fst) (count_words c_locale li fd)"
    by auto
next
  assume a: "list_all c_isspace ws \<and> stream_of (reads fd2) = stream_of (reads fd) @ ws"
    and f: "fstat fd \<noteq> None \<and> fstat fd2 \<noteq> None"
  from a have e: "sm_words IN_SPACE (map c_isspace (stream_of (reads fd2))) =
      sm_words IN_SPACE (map c_isspace (stream_of (reads fd)))"
    by (simp only: sm_words_trailing)
  from f obtain st st2 where "fstat fd = Some st" "fstat fd2 = Some st2" by auto
  from count_all_c_sm [OF this(1), of li] count_all_c_sm [OF this(2), of li] e
  show "map_sum id (num_words \<circ> fst) (count_all c_locale li fd2) =
        map_sum id (num_words \<circ> fst) (count_all c_locale li fd)"
    by auto
qed

theorem C2_word_count_witness:
  "fstat (pipe [Rd [32, 32, 102, 111, 111, 32, 32, 98], Rd [97, 114, 10, 98, 97, 122, 10]]) \<noteq> None
   \<and> stream_of (reads (pipe [Rd [32, 32, 102, 111, 111, 32, 32, 98], Rd [97, 114, 10, 98, 97, 122, 10]])) =
       [32, 32, 102, 111, 111, 32, 32, 98, 97, 114, 10, 98, 97, 122, 10]
   \<and> word_runs (map c_isspace [32, 32, 102, 111, 111, 32, 32, 98, 97, 114, 10, 98, 97, 122, 10]) =
       [[False, False, False], [False, False, False], [False, False, False]]
   \<and> (\<exists>li' fd'. count_words c_locale lc_info0
         (pipe [Rd [32, 32, 102, 111, 111, 32, 32, 98], Rd [97, 114, 10, 98, 97, 122, 10]]) = Inr (li', fd')
         \<and> num_words li' = 3)
   \<and> (\<exists>li' fd'. count_all c_locale lc_info0
         (pipe [Rd [32, 32, 102, 111, 111, 32, 32, 98], Rd [97, 114, 10, 98, 97, 122, 10]]) = Inr (li', fd')
         \<and> num_words li' = 3)
   \<and> (\<exists>li' lc' fd' t. use_opts c_locale lc_info0 \<lparr>opt_bytes = False, opt_lines = False, opt_words = True\<rparr>
         (pipe [Rd [32, 32, 102, 111, 111, 32, 32, 98], Rd [97, 114, 10, 98, 97, 122, 10]]) =
           Inr (li', lc', fd', t) \<and> num_words li' = 3)
   \<and> list_all c_isspace [10, 32]
   \<and> map_sum id (num_words \<circ> fst) (count_words c_locale lc_info0
         (pipe [Rd [32, 32, 102, 111, 111, 32, 32, 98], Rd [97, 114, 10, 98, 97, 122, 10], Rd [10, 32]])) =
       map_sum id (num_words \<circ> fst) (count_words c_locale lc_info0
         (pipe [Rd [32, 32, 102, 111, 111, 32, 32, 98], Rd [97, 114, 10, 98, 97, 122, 10]]))"
proof -
  let ?fd = "pipe [Rd [32, 32, 102, 111, 111, 32, 32, 98], Rd [97, 114, 10, 98, 97, 122, 10]]"
  let ?fd2 = "pipe [Rd [32, 32, 102, 111, 111, 32, 32, 98], Rd [97, 114, 10, 98, 97, 122, 10], Rd [10, 32]]"
  let ?bs = "[32, 32, 102, 111, 111, 32, 32, 98, 97, 114, 10, 98, 97, 122, 10] :: byte list"
  have 1: "fstat ?fd \<noteq> None" by (simp add: pipe_def)
  have 2: "stream_of (reads ?fd) = ?bs" by (simp add: pipe_def)
  have 3: "map c_isspace ?bs =
      [True, True, False, False, False, True, True, False, False, False, True, False, False, False, True]"
    by (simp add: c_isspace_def)
  have 4: "word_runs (map c_isspace ?bs) = [[False, False, False], [False, False, False], [False, False, False]]"
    unfolding 3 by (simp add: word_runs.simps)
  have 5: "list_all c_isspace [10, 32]" by (simp add: c_isspace_def)
  have 6: "stream_of (reads ?fd2) = stream_of (reads ?fd) @ [10, 32]" by (simp add: pipe_def)
  have len: "length (word_runs (map c_isspace (stream_of (reads ?fd)))) = 3"
    by (simp only: 2 4) simp
  let ?lc = "\<lparr>opt_bytes = False, opt_lines = False, opt_words = True\<rparr>"
  note t = C2_word_count [of lc_info0 ?fd ?lc "[10, 32]" ?fd2]
  from conjunct1 [OF t] len
  have a: "\<exists>li' fd'. count_words c_locale lc_info0 ?fd = Inr (li', fd') \<and> num_words li' = 3"
    by auto
  from conjunct1 [OF conjunct2 [OF t]] 1 len
  have b: "\<exists>li' fd'. count_all c_locale lc_info0 ?fd = Inr (li', fd') \<and> num_words li' = 3"
    by auto
  from conjunct1 [OF conjunct2 [OF conjunct2 [OF t]]] 1 len
  have u: "\<exists>li' lc' fd' t. use_opts c_locale lc_info0 ?lc ?fd = Inr (li', lc', fd', t) \<and> num_words li' = 3"
    by auto
  from conjunct2 [OF conjunct2 [OF conjunct2 [OF t]]] 5 6
  have c: "map_sum id (num_words \<circ> fst) (count_words c_locale lc_info0 ?fd2) =
       map_sum id (num_words \<circ> fst) (count_words c_locale lc_info0 ?fd)"
    by blast
  from 1 2 4 a b u 5 c show ?thesis by blast
qed

subsection \<open>Decoder failures\<close>

text \<open>
  C7. Where the decoder returns 0, \<open>-1\<close> or \<open>-2\<close> (in the \<^verbatim>\<open>"C"\<close> locale: at a null
  byte and at a byte from \<open>0x80\<close> on), the byte is one the loops hand to the decoder, what
  \<^verbatim>\<open>pwc\<close> holds is neither whitespace nor a newline, and the iteration advances by one byte
  and clears \<open>have_space\<close>, starting a word when it was set. The line count, \<open>num_bytes\<close>
  and \<open>sum_bytes\<close> stay as they are, and the loop goes on with the next byte.
\<close>

theorem C7_decoder_failure:
  assumes "bs \<noteq> []" and "mbrtowc c_locale (mst s) bs = (r, m)"
    and "r = MbChar 0 wc \<or> r = MbInvalid \<or> r = MbIncomplete"
  shows "\<not> (is_ascii (char_val (hd bs)) \<and> is_print (char_val (hd bs)))
    \<and> \<not> iswspace c_locale (pwc_after r (hd bs)) \<and> pwc_after r (hd bs) \<noteq> 10
    \<and> words_step c_locale bs s =
        (1, if have_space s
            then s\<lparr>have_space := False, info := (info s)\<lparr>num_words := num_words (info s) + 1\<rparr>\<rparr>
            else s)
    \<and> all_step c_locale bs s =
        (1, if have_space s
            then s\<lparr>have_space := False, info := (info s)\<lparr>num_words := num_words (info s) + 1\<rparr>\<rparr>
            else s)
    \<and> \<not> have_space (snd (words_step c_locale bs s)) \<and> \<not> have_space (snd (all_step c_locale bs s))
    \<and> num_lines (info (snd (all_step c_locale bs s))) = num_lines (info s)
    \<and> num_bytes (info (snd (all_step c_locale bs s))) = num_bytes (info s)
    \<and> sum_bytes (snd (all_step c_locale bs s)) = sum_bytes s
    \<and> words_buf c_locale bs s = words_buf c_locale (tl bs) (snd (words_step c_locale bs s))
    \<and> all_buf c_locale bs s = all_buf c_locale (tl bs) (snd (all_step c_locale bs s))"
proof -
  from assms(1) obtain b t where bs: "bs = b # t" by (cases bs) auto
  have r: "r = (if b = 0 then MbChar 0 0 else if b < 128 then MbChar 1 (unat b) else MbInvalid)"
    using assms(2) by (simp add: bs c_mbrtowc_Cons split: if_splits)
  with assms(3) have b: "b = 0 \<or> \<not> b < 128"
    by (auto split: if_splits)
  then have nf: "\<not> (32 \<le> b \<and> b \<le> 126)"
    by (auto simp: word_le_nat_alt word_less_nat_alt)
  have ns: "\<not> c_isspace b"
    using b by (auto simp: c_isspace_def word_le_nat_alt word_less_nat_alt)
  have nl: "b \<noteq> 10"
    using b by auto
  note cl = slow_path_class [OF assms(2) [unfolded bs]]
  have w: "words_step c_locale bs s =
        (1, if have_space s
            then s\<lparr>have_space := False, info := (info s)\<lparr>num_words := num_words (info s) + 1\<rparr>\<rparr>
            else s)"
    using ns by (simp add: bs words_step_c_locale note_class_def)
  have a: "all_step c_locale bs s =
        (1, if have_space s
            then s\<lparr>have_space := False, info := (info s)\<lparr>num_words := num_words (info s) + 1\<rparr>\<rparr>
            else s)"
    using ns nl by (simp add: bs all_step_c_locale note_class_def)
  have f1: "\<not> (is_ascii (char_val (hd bs)) \<and> is_print (char_val (hd bs)))"
    using nf by (simp add: bs fast_path_iff)
  have f2: "\<not> iswspace c_locale (pwc_after r (hd bs))" "pwc_after r (hd bs) \<noteq> 10"
    using cl ns nl by (simp_all add: bs)
  have f3: "\<not> have_space (snd (words_step c_locale bs s))" "\<not> have_space (snd (all_step c_locale bs s))"
    "num_lines (info (snd (all_step c_locale bs s))) = num_lines (info s)"
    "num_bytes (info (snd (all_step c_locale bs s))) = num_bytes (info s)"
    "sum_bytes (snd (all_step c_locale bs s)) = sum_bytes s"
    by (simp_all add: w a)
  have f4: "words_buf c_locale bs s = words_buf c_locale (tl bs) (snd (words_step c_locale bs s))"
    "all_buf c_locale bs s = all_buf c_locale (tl bs) (snd (all_step c_locale bs s))"
    using ns nl by (simp_all add: bs words_buf_c_locale all_buf_c_locale words_step_c_locale all_step_c_locale)
  from f1 f2 w a f3 f4 show ?thesis by blast
qed

theorem C7_decoder_failure_witness:
  "[255, 97 :: byte] \<noteq> []
   \<and> mbrtowc c_locale () [255, 97] = (MbInvalid, ())
   \<and> mbrtowc c_locale () [0, 97] = (MbChar 0 0, ())
   \<and> all_step c_locale [255, 97] \<lparr>mst = (), have_space = True, sum_bytes = 2, info = lc_info0\<rparr> =
       (1, \<lparr>mst = (), have_space = False, sum_bytes = 2, info = lc_info0\<lparr>num_words := 1\<rparr>\<rparr>)
   \<and> words_step c_locale [0, 97] \<lparr>mst = (), have_space = False, sum_bytes = 0, info = lc_info0\<rparr> =
       (1, \<lparr>mst = (), have_space = False, sum_bytes = 0, info = lc_info0\<rparr>)
   \<and> all_buf c_locale [255, 97] \<lparr>mst = (), have_space = True, sum_bytes = 2, info = lc_info0\<rparr> =
       all_buf c_locale [97] \<lparr>mst = (), have_space = False, sum_bytes = 2, info = lc_info0\<lparr>num_words := 1\<rparr>\<rparr>"
proof -
  let ?s = "\<lparr>mst = (), have_space = True, sum_bytes = 2, info = lc_info0\<rparr>"
  let ?t = "\<lparr>mst = (), have_space = False, sum_bytes = 0, info = lc_info0\<rparr>"
  have 1: "[255, 97 :: byte] \<noteq> []" "[0, 97 :: byte] \<noteq> []" by simp_all
  have 2: "mbrtowc c_locale (mst ?s) [255, 97] = (MbInvalid, ())"
    by (simp add: c_mbrtowc_def)
  have 3: "mbrtowc c_locale (mst ?t) [0, 97] = (MbChar 0 0, ())"
    by (simp add: c_mbrtowc_def)
  have 4: "MbInvalid = MbChar 0 0 \<or> MbInvalid = MbInvalid \<or> MbInvalid = MbIncomplete"
    "MbChar 0 0 = MbChar 0 0 \<or> MbChar 0 0 = MbInvalid \<or> MbChar 0 0 = MbIncomplete"
    by simp_all
  note t1 = C7_decoder_failure [OF 1(1) 2 4(1)]
  note t2 = C7_decoder_failure [OF 1(2) 3 4(2)]
  from t1 have a: "all_step c_locale [255, 97] ?s =
       (1, \<lparr>mst = (), have_space = False, sum_bytes = 2, info = lc_info0\<lparr>num_words := 1\<rparr>\<rparr>)"
    by (simp add: lc_info0_def)
  from t2 have b: "words_step c_locale [0, 97] ?t = (1, ?t)"
    by simp
  from t1 a have c: "all_buf c_locale [255, 97] ?s =
       all_buf c_locale [97] \<lparr>mst = (), have_space = False, sum_bytes = 2, info = lc_info0\<lparr>num_words := 1\<rparr>\<rparr>"
    by simp
  from 1 2 3 a b c show ?thesis by simp
qed

subsection \<open>Read boundaries in the C locale\<close>

lemma all_reads_c_chunks:
  "[] \<notin> set cs \<Longrightarrow> all_reads c_locale (map Rd cs) s = all_reads c_locale [Rd (concat cs)] s"
proof (induction cs arbitrary: s)
  case Nil
  then show ?case by simp
next
  case (Cons c cs)
  then have c: "c \<noteq> []" by auto
  show ?case
  proof (cases cs)
    case Nil
    then show ?thesis by simp
  next
    case (Cons c' cs')
    let ?X = "concat cs"
    have X: "?X \<noteq> []" using Cons.prems Cons by auto
    let ?a = "sum_bytes s + of_nat (length c)"
    let ?s1 = "all_buf c_locale c (s\<lparr>sum_bytes := ?a\<rparr>)"
    have ih: "all_reads c_locale (map Rd cs) ?s1 = all_reads c_locale [Rd ?X] ?s1"
      using Cons.IH [of ?s1] Cons.prems by simp
    have "all_reads c_locale (map Rd (c # cs)) s = all_reads c_locale [Rd ?X] ?s1"
      using c ih by simp
    also have "\<dots> = (all_buf c_locale ?X (?s1\<lparr>sum_bytes := sum_bytes ?s1 + of_nat (length ?X)\<rparr>), [])"
      by (rule all_reads_single [OF X])
    also have "?s1\<lparr>sum_bytes := sum_bytes ?s1 + of_nat (length ?X)\<rparr> =
               all_buf c_locale c (s\<lparr>sum_bytes := sum_bytes s + of_nat (length (c @ ?X))\<rparr>)"
      by (simp add: all_buf_sum all_buf_frame add.assoc)
    also have "all_buf c_locale ?X (all_buf c_locale c (s\<lparr>sum_bytes := sum_bytes s + of_nat (length (c @ ?X))\<rparr>)) =
               all_buf c_locale (c @ ?X) (s\<lparr>sum_bytes := sum_bytes s + of_nat (length (c @ ?X))\<rparr>)"
      by (simp only: all_buf_c_append)
    also have "(all_buf c_locale (c @ ?X) (s\<lparr>sum_bytes := sum_bytes s + of_nat (length (c @ ?X))\<rparr>), []) =
               all_reads c_locale [Rd (concat (c # cs))] s"
      using all_reads_single [of "c @ ?X" c_locale s] c by simp
    finally show ?thesis .
  qed
qed

lemma words_reads_c_chunks:
  "[] \<notin> set cs \<Longrightarrow> words_reads c_locale (map Rd cs) s = words_reads c_locale [Rd (concat cs)] s"
proof (induction cs arbitrary: s)
  case Nil
  then show ?case by simp
next
  case (Cons c cs)
  then have c: "c \<noteq> []" by auto
  show ?case
  proof (cases cs)
    case Nil
    then show ?thesis by simp
  next
    case (Cons c' cs')
    let ?X = "concat cs"
    have X: "?X \<noteq> []" using Cons.prems Cons by auto
    let ?s1 = "words_buf c_locale c s"
    have ih: "words_reads c_locale (map Rd cs) ?s1 = words_reads c_locale [Rd ?X] ?s1"
      using Cons.IH [of ?s1] Cons.prems by simp
    have "words_reads c_locale (map Rd (c # cs)) s = words_reads c_locale [Rd ?X] ?s1"
      using c ih by simp
    also have "\<dots> = (words_buf c_locale ?X ?s1, [])"
      by (rule words_reads_single [OF X])
    also have "words_buf c_locale ?X ?s1 = words_buf c_locale (c @ ?X) s"
      by (simp only: words_buf_c_append)
    also have "(words_buf c_locale (c @ ?X) s, []) = words_reads c_locale [Rd (concat (c # cs))] s"
      using words_reads_single [of "c @ ?X" c_locale s] c by simp
    finally show ?thesis .
  qed
qed

lemma c_locale_chunks:
  assumes "[] \<notin> set cs"
  shows "count_words c_locale li (fd\<lparr>reads := map Rd cs\<rparr>) =
         count_words c_locale li (fd\<lparr>reads := [Rd (concat cs)]\<rparr>)"
    and "count_all c_locale li (fd\<lparr>reads := map Rd cs\<rparr>) =
         count_all c_locale li (fd\<lparr>reads := [Rd (concat cs)]\<rparr>)"
    and "map_sum id fst (count_bytes c_locale li (fd\<lparr>reads := map Rd cs\<rparr>)) =
         map_sum id fst (count_bytes c_locale li (fd\<lparr>reads := [Rd (concat cs)]\<rparr>))"
proof -
  show "count_words c_locale li (fd\<lparr>reads := map Rd cs\<rparr>) =
        count_words c_locale li (fd\<lparr>reads := [Rd (concat cs)]\<rparr>)"
    using assms by (simp add: count_words_def words_reads_c_chunks split: prod.splits)
  show "count_all c_locale li (fd\<lparr>reads := map Rd cs\<rparr>) =
        count_all c_locale li (fd\<lparr>reads := [Rd (concat cs)]\<rparr>)"
    using assms by (simp add: count_all_def Let_def all_reads_c_chunks split: prod.splits option.splits)
  show "map_sum id fst (count_bytes c_locale li (fd\<lparr>reads := map Rd cs\<rparr>)) =
        map_sum id fst (count_bytes c_locale li (fd\<lparr>reads := [Rd (concat cs)]\<rparr>))"
    by (auto simp add: count_bytes_def Let_def bytes_reads_chunks [OF assms]
        simp del: bytes_reads.simps split: prod.splits option.splits)
qed

lemma replicate_last: "replicate (Suc n) x = replicate n x @ [x]"
  by (simp add: replicate_append_same)

subsection \<open>The line scan after the promotion\<close>

text \<open>
  C1. The line count should be the number of bytes \<open>0x0A\<close> of the stream, in \<open>count_all\<close>
  and in \<open>count_lines_and_bytes\<close>. A regular file of eight full blocks, six of newlines and
  two of the letter \<^verbatim>\<open>a\<close>, holds 391230 newlines. With the line flag alone the scan is
  \<open>count_lines_and_bytes\<close>: the seventh block sets \<open>expect_long\<close>, the eighth is a full
  read in long mode, the sentinel is stored past the buffer and no count is returned.
  \<open>count_all\<close> returns 391230 for the same file, and \<open>count_lines_and_bytes\<close> returns 3
  for a file of one full block with three newlines.
\<close>

theorem C1_lines_lost_after_promotion:
  "use_opts c_locale lc_info0 \<lparr>opt_bytes = False, opt_lines = True, opt_words = False\<rparr>
     (regular 521640
        [Rd (replicate 65205 10), Rd (replicate 65205 10), Rd (replicate 65205 10),
         Rd (replicate 65205 10), Rd (replicate 65205 10), Rd (replicate 65205 10),
         Rd (replicate 65205 97), Rd (replicate 65205 97)]) = Inl (Undefined_access 65205)
   \<and> count_list (stream_of (reads (regular 521640
        [Rd (replicate 65205 10), Rd (replicate 65205 10), Rd (replicate 65205 10),
         Rd (replicate 65205 10), Rd (replicate 65205 10), Rd (replicate 65205 10),
         Rd (replicate 65205 97), Rd (replicate 65205 97)]))) 10 = 391230
   \<and> map_sum id (num_lines \<circ> fst) (count_all c_locale lc_info0
       (regular 521640
        [Rd (replicate 65205 10), Rd (replicate 65205 10), Rd (replicate 65205 10),
         Rd (replicate 65205 10), Rd (replicate 65205 10), Rd (replicate 65205 10),
         Rd (replicate 65205 97), Rd (replicate 65205 97)])) = Inr 391230
   \<and> map_sum id (num_lines \<circ> fst) (count_lines_and_bytes c_locale lc_info0
       (regular 65205 [Rd (replicate 65202 97 @ [10, 10, 10])])) = Inr 3"
proof -
  let ?F = "regular 521640
        [Rd (replicate 65205 10), Rd (replicate 65205 10), Rd (replicate 65205 10),
         Rd (replicate 65205 10), Rd (replicate 65205 10), Rd (replicate 65205 10),
         Rd (replicate 65205 97), Rd (replicate 65205 97)]"
  have a: "use_opts c_locale lc_info0 \<lparr>opt_bytes = False, opt_lines = True, opt_words = False\<rparr> ?F =
      Inl (Undefined_access 65205)"
    by (simp add: use_opts_def count_lines_and_bytes_def regular_def Let_def clb_body_short
        clb_body_overrun count_list_replicate MAXSIZE_def)
  have b: "count_list (stream_of (reads ?F)) 10 = 391230"
    by (simp add: regular_def count_list_replicate)
  have f: "fstat ?F = Some \<lparr>S_ISREG = True, st_size = 521640\<rparr>"
    by (simp add: regular_def)
  from count_all_c_lines [OF f, of lc_info0] b
  have c: "map_sum id (num_lines \<circ> fst) (count_all c_locale lc_info0 ?F) = Inr 391230"
    by auto
  have d: "map_sum id (num_lines \<circ> fst) (count_lines_and_bytes c_locale lc_info0
       (regular 65205 [Rd (replicate 65202 97 @ [10, 10, 10])])) = Inr 3"
    by (simp add: count_lines_and_bytes_def regular_def Let_def clb_body_short
        count_list_replicate MAXSIZE_def)
  from a b c d show ?thesis by blast
qed

text \<open>
  C3. With the byte flag set, a regular file of positive size should be reported with that
  size. For a regular file of nine full blocks, the first six of newlines, the line and byte
  flags select \<open>count_lines_and_bytes\<close>, which stores past the buffer in the eighth block
  and reports nothing. The byte flag alone reports the size 586845 with the reads untouched,
  and the word and byte flags (\<open>count_all\<close>) report 586845. On small inputs the line and
  byte flags report the size of a regular file and the number of bytes a pipe delivers.
\<close>

theorem C3_bytes_lost_after_promotion:
  "use_opts c_locale lc_info0 \<lparr>opt_bytes = True, opt_lines = True, opt_words = False\<rparr>
     (regular 586845
        [Rd (replicate 65205 10), Rd (replicate 65205 10), Rd (replicate 65205 10),
         Rd (replicate 65205 10), Rd (replicate 65205 10), Rd (replicate 65205 10),
         Rd (replicate 65205 97), Rd (replicate 65205 97), Rd (replicate 65205 97)]) =
     Inl (Undefined_access 65205)
   \<and> map_sum id (\<lambda>(li, lc, fd, t). (num_bytes li, reads fd))
       (use_opts c_locale lc_info0 \<lparr>opt_bytes = True, opt_lines = False, opt_words = False\<rparr>
          (regular 586845
            [Rd (replicate 65205 10), Rd (replicate 65205 10), Rd (replicate 65205 10),
             Rd (replicate 65205 10), Rd (replicate 65205 10), Rd (replicate 65205 10),
             Rd (replicate 65205 97), Rd (replicate 65205 97), Rd (replicate 65205 97)])) =
     Inr (586845,
          [Rd (replicate 65205 10), Rd (replicate 65205 10), Rd (replicate 65205 10),
           Rd (replicate 65205 10), Rd (replicate 65205 10), Rd (replicate 65205 10),
           Rd (replicate 65205 97), Rd (replicate 65205 97), Rd (replicate 65205 97)])
   \<and> map_sum id (\<lambda>(li, lc, fd, t). num_bytes li)
       (use_opts c_locale lc_info0 \<lparr>opt_bytes = True, opt_lines = False, opt_words = True\<rparr>
          (regular 586845
            [Rd (replicate 65205 10), Rd (replicate 65205 10), Rd (replicate 65205 10),
             Rd (replicate 65205 10), Rd (replicate 65205 10), Rd (replicate 65205 10),
             Rd (replicate 65205 97), Rd (replicate 65205 97), Rd (replicate 65205 97)])) =
     Inr 586845
   \<and> map_sum id (\<lambda>(li, lc, fd, t). num_bytes li)
       (use_opts c_locale lc_info0 \<lparr>opt_bytes = True, opt_lines = True, opt_words = False\<rparr>
          (regular 5 [Rd [97, 10, 98, 99, 10]])) = Inr 5
   \<and> map_sum id (\<lambda>(li, lc, fd, t). num_bytes li)
       (use_opts c_locale lc_info0 \<lparr>opt_bytes = True, opt_lines = True, opt_words = False\<rparr>
          (pipe [Rd [97, 10, 98], Rd [99, 10]])) = Inr 5"
proof -
  let ?G = "regular 586845
        [Rd (replicate 65205 10), Rd (replicate 65205 10), Rd (replicate 65205 10),
         Rd (replicate 65205 10), Rd (replicate 65205 10), Rd (replicate 65205 10),
         Rd (replicate 65205 97), Rd (replicate 65205 97), Rd (replicate 65205 97)]"
  have a: "use_opts c_locale lc_info0 \<lparr>opt_bytes = True, opt_lines = True, opt_words = False\<rparr> ?G =
      Inl (Undefined_access 65205)"
    by (simp add: use_opts_def count_lines_and_bytes_def regular_def Let_def clb_body_short
        clb_body_overrun count_list_replicate MAXSIZE_def)
  have b: "map_sum id (\<lambda>(li, lc, fd, t). (num_bytes li, reads fd))
       (use_opts c_locale lc_info0 \<lparr>opt_bytes = True, opt_lines = False, opt_words = False\<rparr> ?G) =
     Inr (586845,
          [Rd (replicate 65205 10), Rd (replicate 65205 10), Rd (replicate 65205 10),
           Rd (replicate 65205 10), Rd (replicate 65205 10), Rd (replicate 65205 10),
           Rd (replicate 65205 97), Rd (replicate 65205 97), Rd (replicate 65205 97)])"
    by (simp add: use_opts_def count_bytes_def regular_def Let_def close_def word_sless_alt)
  have f: "fstat ?G = Some \<lparr>S_ISREG = True, st_size = 586845\<rparr>"
    by (simp add: regular_def)
  have m: "malloc_ok c_locale" by simp
  from count_all_bytes [OF f m, of lc_info0]
  obtain li' fd' where ca: "count_all c_locale lc_info0 ?G = Inr (li', fd')" and nb: "num_bytes li' = 586845"
    by (auto simp: word_sless_alt)
  have c: "map_sum id (\<lambda>(li, lc, fd, t). num_bytes li)
       (use_opts c_locale lc_info0 \<lparr>opt_bytes = True, opt_lines = False, opt_words = True\<rparr> ?G) = Inr 586845"
    by (simp add: use_opts_def ca nb)
  have d: "map_sum id (\<lambda>(li, lc, fd, t). num_bytes li)
       (use_opts c_locale lc_info0 \<lparr>opt_bytes = True, opt_lines = True, opt_words = False\<rparr>
          (regular 5 [Rd [97, 10, 98, 99, 10]])) = Inr 5"
    by (simp add: use_opts_def count_lines_and_bytes_def regular_def Let_def clb_body_short
        MAXSIZE_def word_sless_alt lc_info0_def)
  have e: "map_sum id (\<lambda>(li, lc, fd, t). num_bytes li)
       (use_opts c_locale lc_info0 \<lparr>opt_bytes = True, opt_lines = True, opt_words = False\<rparr>
          (pipe [Rd [97, 10, 98], Rd [99, 10]])) = Inr 5"
    by (simp add: use_opts_def count_lines_and_bytes_def pipe_def Let_def clb_body_short
        MAXSIZE_def word_sless_alt lc_info0_def)
  from a b c d e show ?thesis by blast
qed

text \<open>
  C6. The result of a scan should not depend on where the reads cut the input. The same
  65219 bytes arrive on a pipe once as reads of 12, 2 and 65205 bytes and once as reads of
  12, 2, 65204 and 1 bytes. The second read sets \<open>expect_long\<close> in
  \<open>count_lines_and_bytes\<close>; the full third read of the first sequence stores the sentinel
  past the buffer, while the second sequence returns 12 lines and 65219 bytes.
  \<open>count_all\<close>, \<open>count_words\<close> and \<open>count_bytes\<close> return the same for both sequences.
\<close>

theorem C6_full_block_after_promotion:
  "concat [replicate 12 10, [97, 98], replicate 65205 32] =
   concat [replicate 12 10, [97, 98], replicate 65204 32, [32 :: byte]]
   \<and> count_lines_and_bytes c_locale lc_info0
       (pipe [Rd (replicate 12 10), Rd [97, 98], Rd (replicate 65205 32)]) =
     Inl (Undefined_access 65205)
   \<and> count_lines_and_bytes c_locale lc_info0
       (pipe [Rd (replicate 12 10), Rd [97, 98], Rd (replicate 65204 32), Rd [32]]) =
     Inr (lc_info0\<lparr>num_lines := 12, num_bytes := 65219\<rparr>, (pipe [])\<lparr>closes := 1\<rparr>)
   \<and> count_all c_locale lc_info0
       (pipe [Rd (replicate 12 10), Rd [97, 98], Rd (replicate 65205 32)]) =
     count_all c_locale lc_info0
       (pipe [Rd (replicate 12 10), Rd [97, 98], Rd (replicate 65204 32), Rd [32]])
   \<and> count_words c_locale lc_info0
       (pipe [Rd (replicate 12 10), Rd [97, 98], Rd (replicate 65205 32)]) =
     count_words c_locale lc_info0
       (pipe [Rd (replicate 12 10), Rd [97, 98], Rd (replicate 65204 32), Rd [32]])
   \<and> map_sum id fst (count_bytes c_locale lc_info0
       (pipe [Rd (replicate 12 10), Rd [97, 98], Rd (replicate 65205 32)])) =
     map_sum id fst (count_bytes c_locale lc_info0
       (pipe [Rd (replicate 12 10), Rd [97, 98], Rd (replicate 65204 32), Rd [32]]))"
proof -
  let ?A = "[replicate 12 10, [97, 98], replicate 65205 32] :: byte list list"
  let ?B = "[replicate 12 10, [97, 98], replicate 65204 32, [32]] :: byte list list"
  have r: "replicate 65205 (32 :: byte) = replicate 65204 32 @ [32]"
    using replicate_last [of 65204 "32 :: byte"] by simp
  have e: "concat ?A = concat ?B"
    by (simp add: r)
  have a: "count_lines_and_bytes c_locale lc_info0
       (pipe [Rd (replicate 12 10), Rd [97, 98], Rd (replicate 65205 32)]) =
     Inl (Undefined_access 65205)"
    by (simp add: count_lines_and_bytes_def pipe_def Let_def clb_body_short clb_body_overrun
        count_list_replicate MAXSIZE_def)
  have b: "count_lines_and_bytes c_locale lc_info0
       (pipe [Rd (replicate 12 10), Rd [97, 98], Rd (replicate 65204 32), Rd [32]]) =
     Inr (lc_info0\<lparr>num_lines := 12, num_bytes := 65219\<rparr>, (pipe [])\<lparr>closes := 1\<rparr>)"
    by (simp add: count_lines_and_bytes_def pipe_def Let_def clb_body_short clb_body_long
        count_list_replicate MAXSIZE_def close_def lc_info0_def)
  have nA: "[] \<notin> set ?A" and nB: "[] \<notin> set ?B" by simp_all
  have pA: "pipe [Rd (replicate 12 10), Rd [97, 98], Rd (replicate 65205 32)] = (pipe [])\<lparr>reads := map Rd ?A\<rparr>"
    and pB: "pipe [Rd (replicate 12 10), Rd [97, 98], Rd (replicate 65204 32), Rd [32]] = (pipe [])\<lparr>reads := map Rd ?B\<rparr>"
    by (simp_all add: pipe_def)
  have c: "count_all c_locale lc_info0
       (pipe [Rd (replicate 12 10), Rd [97, 98], Rd (replicate 65205 32)]) =
     count_all c_locale lc_info0
       (pipe [Rd (replicate 12 10), Rd [97, 98], Rd (replicate 65204 32), Rd [32]])"
    unfolding pA pB c_locale_chunks(2) [OF nA] c_locale_chunks(2) [OF nB] e ..
  have d: "count_words c_locale lc_info0
       (pipe [Rd (replicate 12 10), Rd [97, 98], Rd (replicate 65205 32)]) =
     count_words c_locale lc_info0
       (pipe [Rd (replicate 12 10), Rd [97, 98], Rd (replicate 65204 32), Rd [32]])"
    unfolding pA pB c_locale_chunks(1) [OF nA] c_locale_chunks(1) [OF nB] e ..
  have f: "map_sum id fst (count_bytes c_locale lc_info0
       (pipe [Rd (replicate 12 10), Rd [97, 98], Rd (replicate 65205 32)])) =
     map_sum id fst (count_bytes c_locale lc_info0
       (pipe [Rd (replicate 12 10), Rd [97, 98], Rd (replicate 65204 32), Rd [32]]))"
    unfolding pA pB c_locale_chunks(3) [OF nA] c_locale_chunks(3) [OF nB] e ..
  from e a b c d f show ?thesis by blast
qed

end
